theory Spec2Isabelle
  imports Complex_Main "HOL-Library.Word" "HOL-Library.Monad_Syntax"
begin

section \<open>The texture generator of the PBR pack generator, embedded\<close>

text \<open>
  The functions below are the ones of the texture generator module (the second document of
  \<^verbatim>\<open>src/components/Preview3D.tsx\<close>, from \<^verbatim>\<open>createBuffer\<close> to
  \<^verbatim>\<open>generateTextures\<close>), translated one by one.

  \<^item> A JavaScript \<^verbatim>\<open>number\<close> is a \<^typ>\<open>real\<close>, and an arithmetic operation of the
    code is the exact operation followed by \<open>double\<close>, the rounding to the nearest IEEE
    binary64 value, ties to even (subsection \<open>Numbers and typed arrays\<close>). A literal that
    is not a binary64 value, such as \<^verbatim>\<open>0.299\<close>, is rounded in the same way; comparisons,
    \<^verbatim>\<open>Math.max\<close>, \<^verbatim>\<open>Math.min\<close> and \<^verbatim>\<open>Math.floor\<close> are exact. \<^verbatim>\<open>NaN\<close> and
    \<^verbatim>\<open>Infinity\<close> are written out at the places where the code can produce them (a typed
    array read past its end, \<^verbatim>\<open>Math.pow(0, negative)\<close>, and the division by a length
    of 0).
  \<^item> A \<^verbatim>\<open>Uint8ClampedArray\<close> is a list of bytes, \<^typ>\<open>8 word list\<close>. A store converts
    the number with the language's \<^verbatim>\<open>ToUint8Clamp\<close>; a store past the end is ignored,
    which is what \<^term>\<open>xs[i := v]\<close> does; a read past the end is \<^verbatim>\<open>undefined\<close>.
  \<^item> An \<^verbatim>\<open>ImageData\<close> is a record; mutation in place is a function that returns the
    new value. The constructor's checks are those of the HTML standard.
  \<^item> Every \<^verbatim>\<open>for\<close> loop is a recursive function on its counter. Counters and indices
    are natural numbers: they stay below \<open>2 ^ 53\<close>, where the code's arithmetic on them is
    exact (the counters of the four border loops apart, see there).
\<close>

subsection \<open>Parameters and the texture set (the types module)\<close>

datatype Resolution = SQUARE_2K | WIDE_2K

datatype NormalMode = DX | GL

record BorderSettings =
  top :: real
  bottom :: real
  left :: real
  right :: real
  linked :: bool
  color :: string

record TextureSet =
  albedo :: string
  normal :: string
  roughness :: string
  metallic :: string
  height :: string
  displacement :: string
  ao :: string

record PBRParams =
  resolution :: Resolution
  normalStrength :: real
  normalMode :: NormalMode
  displacementStrength :: real
  heightMin :: real
  heightMax :: real
  roughness :: real
  metallic :: real
  aoStrength :: real
  borders :: BorderSettings

subsection \<open>Numbers and typed arrays\<close>

text \<open>
  The rounding of a real to the nearest binary64 value, ties to even. \<open>binade x\<close> is the
  exponent \<open>e\<close> with \<open>2 ^ e \<le> \<bar>x\<bar> < 2 ^ (e + 1)\<close>, not below the least exponent - 1022
  of a normal number; the values of that binade are the multiples of \<open>2 ^ (e - 52)\<close>, and
  \<open>double x\<close> is the nearest of them (below \<open>2 ^ (- 1022)\<close> these are the subnormal
  numbers, the multiples of \<open>2 ^ (- 1074)\<close>).

  The one thing \<open>double\<close> leaves out is overflow: from \<open>2 ^ 1024 - 2 ^ 970\<close> on the
  language rounds to \<^verbatim>\<open>Infinity\<close>, and \<open>double\<close> stays finite. The two claims whose
  theorem is stated with \<open>double\<close> (C7 and C8) bound the parameter far below that size.
\<close>

definition roundHalfEven :: "real \<Rightarrow> int" where
  "roundHalfEven x =
     (let f = \<lfloor>x\<rfloor>
      in if x < of_int f + 1 / 2 then f
         else if of_int f + 1 / 2 < x then f + 1
         else if even f then f else f + 1)"

definition binade :: "real \<Rightarrow> int" where
  "binade x = max \<lfloor>log 2 \<bar>x\<bar>\<rfloor> (- 1022)"

definition double :: "real \<Rightarrow> real" where
  "double x =
     (if x = 0 then 0
      else of_int (roundHalfEven (x / 2 powi (binade x - 52))) * 2 powi (binade x - 52))"

text \<open>ECMAScript's \<^verbatim>\<open>ToUint8Clamp\<close>: clamp to 0..255, round to nearest, ties to even.\<close>

definition ToUint8Clamp :: "real \<Rightarrow> 8 word" where
  "ToUint8Clamp number =
     (let clamped = min (max number 0) 255;
          f = \<lfloor>clamped\<rfloor>
      in word_of_int
           (if clamped < of_int f + 1 / 2 then f
            else if of_int f + 1 / 2 < clamped then f + 1
            else if even f then f else f + 1))"

text \<open>The number read from an element of a typed array.\<close>

definition elem :: "8 word \<Rightarrow> real" where
  "elem b = real (unat b)"

text \<open>
  The store of a number that may be \<^verbatim>\<open>NaN\<close> (\<open>None\<close>): \<^verbatim>\<open>ToUint8Clamp\<close> sends
  \<^verbatim>\<open>NaN\<close> to 0.
\<close>

definition storeNumber :: "real option \<Rightarrow> 8 word" where
  "storeNumber v = (case v of Some x \<Rightarrow> ToUint8Clamp x | None \<Rightarrow> 0)"

subsection \<open>ImageData and createBuffer\<close>

record ImageData =
  width :: nat
  height :: nat
  data :: "8 word list"

datatype error = IndexSizeError | InvalidStateError | SecurityError | Error string

text \<open>\<^verbatim>\<open>new ImageData(sw, sh)\<close>: transparent black; a zero dimension throws.\<close>

definition newImageData :: "nat \<Rightarrow> nat \<Rightarrow> error + ImageData" where
  "newImageData sw sh =
     (if sw = 0 \<or> sh = 0 then Inl IndexSizeError
      else Inr \<lparr>width = sw, height = sh, data = replicate (sw * sh * 4) 0\<rparr>)"

text \<open>\<^verbatim>\<open>new ImageData(data, sw, sh)\<close>: the array must hold exactly \<open>sw * sh\<close> pixels.\<close>

definition newImageDataFrom :: "8 word list \<Rightarrow> nat \<Rightarrow> nat \<Rightarrow> error + ImageData" where
  "newImageDataFrom d sw sh =
     (if length d = 0 \<or> length d mod 4 \<noteq> 0 then Inl InvalidStateError
      else if sw = 0 \<or> (length d div 4) mod sw \<noteq> 0 then Inl IndexSizeError
      else if sh \<noteq> (length d div 4) div sw then Inl IndexSizeError
      else Inr \<lparr>width = sw, height = sh, data = d\<rparr>)"

definition createBuffer :: "nat \<Rightarrow> nat \<Rightarrow> 8 word list option \<Rightarrow> error + ImageData" where
  "createBuffer w h sourceData =
     (case sourceData of
        Some src \<Rightarrow> newImageDataFrom src w h
      | None \<Rightarrow> newImageData w h)"

text \<open>Sequencing of calls that may throw.\<close>

definition bindE :: "error + 'a \<Rightarrow> ('a \<Rightarrow> error + 'b) \<Rightarrow> error + 'b" where
  "bindE m f = (case m of Inl e \<Rightarrow> Inl e | Inr x \<Rightarrow> f x)"

subsection \<open>toGrayscale\<close>

text \<open>
  The loop reads \<open>d[i + 1]\<close> and \<open>d[i + 2]\<close> without a check: past the end they are
  \<^verbatim>\<open>undefined\<close> and \<open>avg\<close> is \<^verbatim>\<open>NaN\<close>. The sum is evaluated from the left:
  three rounded products, two rounded additions.
\<close>

function toGrayscaleLoop :: "nat \<Rightarrow> 8 word list \<Rightarrow> 8 word list" where
  "toGrayscaleLoop i d =
     (if i < length d then
        (let avg = (if i + 2 < length d
                    then Some (double (double (double (double 0.299 * elem (d ! i))
                                                 + double (double 0.587 * elem (d ! (i + 1))))
                                       + double (double 0.114 * elem (d ! (i + 2)))))
                    else None)
         in toGrayscaleLoop (i + 4)
              (d[i := storeNumber avg, i + 1 := storeNumber avg, i + 2 := storeNumber avg,
                 i + 3 := 255]))
      else d)"
  by pat_completeness auto
termination
  by (relation "measure (\<lambda>(i, d). length d - i)") auto

declare toGrayscaleLoop.simps [simp del]

definition toGrayscale :: "ImageData \<Rightarrow> error + ImageData" where
  "toGrayscale imgData =
     bindE (createBuffer (width imgData) (height imgData) (Some (data imgData)))
       (\<lambda>res. Inr (res\<lparr>data := toGrayscaleLoop 0 (data res)\<rparr>))"

subsection \<open>applyDataBorder\<close>

text \<open>
  The closure \<^verbatim>\<open>setP\<close> captures \<open>w\<close>, \<open>h\<close>, the array and the four channel values; here
  they are arguments. The coordinates are integers: the callers pass \<open>h - 1 - y\<close> and
  \<open>w - 1 - x\<close>, which go negative when the thickness exceeds the size.
\<close>

type_synonym rgba = "real \<times> real \<times> real \<times> real"

definition setP :: "nat \<Rightarrow> nat \<Rightarrow> rgba \<Rightarrow> int \<Rightarrow> int \<Rightarrow> 8 word list \<Rightarrow> 8 word list" where
  "setP w h c x y d =
     (case c of (red, green, blue, alpha) \<Rightarrow>
        if x < 0 \<or> x \<ge> int w \<or> y < 0 \<or> y \<ge> int h then d
        else (let i = nat ((y * int w + x) * 4)
              in d[i := ToUint8Clamp red, i + 1 := ToUint8Clamp green,
                   i + 2 := ToUint8Clamp blue, i + 3 := ToUint8Clamp alpha]))"

text \<open>\<^verbatim>\<open>for (let x = 0; x < w; x++) setP(x, yy)\<close>, from counter \<open>x\<close> on.\<close>

function borderRow :: "nat \<Rightarrow> nat \<Rightarrow> rgba \<Rightarrow> int \<Rightarrow> nat \<Rightarrow> 8 word list \<Rightarrow> 8 word list" where
  "borderRow w h c yy x d =
     (if x < w then borderRow w h c yy (x + 1) (setP w h c (int x) yy d) else d)"
  by pat_completeness auto
termination
  by (relation "measure (\<lambda>(w, h, c, yy, x, d). w - x)") auto

declare borderRow.simps [simp del]

text \<open>\<^verbatim>\<open>for (let y = 0; y < h; y++) setP(xx, y)\<close>, from counter \<open>y\<close> on.\<close>

function borderCol :: "nat \<Rightarrow> nat \<Rightarrow> rgba \<Rightarrow> int \<Rightarrow> nat \<Rightarrow> 8 word list \<Rightarrow> 8 word list" where
  "borderCol w h c xx y d =
     (if y < h then borderCol w h c xx (y + 1) (setP w h c xx (int y) d) else d)"
  by pat_completeness auto
termination
  by (relation "measure (\<lambda>(w, h, c, xx, y, d). h - y)") auto

declare borderCol.simps [simp del]

text \<open>
  The four outer loops; the thickness is a number, the counter an integer. The code's
  counter is a number too, and \<^verbatim>\<open>y++\<close> is exact as long as the result is at most
  \<open>2 ^ 53\<close>; there it stops growing, since \<open>2 ^ 53 + 1\<close> rounds back to \<open>2 ^ 53\<close>. So
  for a thickness of at most \<open>2 ^ 53\<close> the loops below are the code's. For a larger one
  the code's loop never ends, while the function here counts on and returns; the theorem
  on what the entry point accepts (claim C3) is therefore stated for thicknesses up to
  \<open>2 ^ 53\<close>. Both facts are proved of \<open>forLoop\<close> below, which is the loop with the code's
  counter (section \<open>The border loops with the code's counter\<close>).
\<close>

function borderTop :: "nat \<Rightarrow> nat \<Rightarrow> rgba \<Rightarrow> real \<Rightarrow> nat \<Rightarrow> 8 word list \<Rightarrow> 8 word list" where
  "borderTop w h c t y d =
     (if real y < t then borderTop w h c t (y + 1) (borderRow w h c (int y) 0 d) else d)"
  by pat_completeness auto
termination
  by (relation "measure (\<lambda>(w, h, c, t, y, d). nat \<lceil>t\<rceil> - y)") (auto, linarith)

declare borderTop.simps [simp del]

function borderBottom :: "nat \<Rightarrow> nat \<Rightarrow> rgba \<Rightarrow> real \<Rightarrow> nat \<Rightarrow> 8 word list \<Rightarrow> 8 word list" where
  "borderBottom w h c b y d =
     (if real y < b
      then borderBottom w h c b (y + 1) (borderRow w h c (int h - 1 - int y) 0 d)
      else d)"
  by pat_completeness auto
termination
  by (relation "measure (\<lambda>(w, h, c, b, y, d). nat \<lceil>b\<rceil> - y)") (auto, linarith)

declare borderBottom.simps [simp del]

function borderLeft :: "nat \<Rightarrow> nat \<Rightarrow> rgba \<Rightarrow> real \<Rightarrow> nat \<Rightarrow> 8 word list \<Rightarrow> 8 word list" where
  "borderLeft w h c l x d =
     (if real x < l then borderLeft w h c l (x + 1) (borderCol w h c (int x) 0 d) else d)"
  by pat_completeness auto
termination
  by (relation "measure (\<lambda>(w, h, c, l, x, d). nat \<lceil>l\<rceil> - x)") (auto, linarith)

declare borderLeft.simps [simp del]

function borderRight :: "nat \<Rightarrow> nat \<Rightarrow> rgba \<Rightarrow> real \<Rightarrow> nat \<Rightarrow> 8 word list \<Rightarrow> 8 word list" where
  "borderRight w h c r x d =
     (if real x < r
      then borderRight w h c r (x + 1) (borderCol w h c (int w - 1 - int x) 0 d)
      else d)"
  by pat_completeness auto
termination
  by (relation "measure (\<lambda>(w, h, c, r, x, d). nat \<lceil>r\<rceil> - x)") (auto, linarith)

declare borderRight.simps [simp del]

text \<open>
  \<^verbatim>\<open>for (let y = 0; y < t; y++) body(y)\<close> with the counter as the code has it, a number
  that \<^verbatim>\<open>y++\<close> increments and rounds, from counter \<open>y\<close> on. \<open>None\<close> is a loop that never
  ends.
\<close>

partial_function (option) forLoop ::
  "real \<Rightarrow> (real \<Rightarrow> 's \<Rightarrow> 's) \<Rightarrow> real \<Rightarrow> 's \<Rightarrow> 's option" where
  "forLoop t body y s =
     (if y < t then forLoop t body (double (y + 1)) (body y s) else Some s)"

definition applyDataBorder ::
  "ImageData \<Rightarrow> real \<Rightarrow> real \<Rightarrow> real \<Rightarrow> real \<Rightarrow> real \<Rightarrow> real \<Rightarrow> real \<Rightarrow> real \<Rightarrow> ImageData" where
  "applyDataBorder imageData t r b l red green blue alpha =
     (if t \<le> 0 \<and> r \<le> 0 \<and> b \<le> 0 \<and> l \<le> 0 then imageData
      else
        (let w = width imageData;
             h = height imageData;
             c = (red, green, blue, alpha);
             d = data imageData;
             d = (if t > 0 then borderTop w h c t 0 d else d);
             d = (if b > 0 then borderBottom w h c b 0 d else d);
             d = (if l > 0 then borderLeft w h c l 0 d else d);
             d = (if r > 0 then borderRight w h c r 0 d else d)
         in imageData\<lparr>data := d\<rparr>))"

subsection \<open>generateHeight\<close>

function generateHeightLoop ::
  "real \<Rightarrow> real \<Rightarrow> real \<Rightarrow> nat \<Rightarrow> 8 word list \<Rightarrow> 8 word list \<Rightarrow> 8 word list" where
  "generateHeightLoop minV maxV range' i d rD =
     (if i < length d then
        (let val = elem (d ! i);
             val = max minV (min maxV val);
             val = double (double (double (val - minV) / range') * 255)
         in generateHeightLoop minV maxV range' (i + 4) d
              (rD[i := ToUint8Clamp val, i + 1 := ToUint8Clamp val,
                  i + 2 := ToUint8Clamp val, i + 3 := 255]))
      else rD)"
  by pat_completeness auto
termination
  by (relation "measure (\<lambda>(minV, maxV, range', i, d, rD). length d - i)") auto

declare generateHeightLoop.simps [simp del]

text \<open>\<^verbatim>\<open>range = maxV - minV || 1\<close>: the number \<open>0\<close> is falsy, every other real is kept.\<close>

definition heightRange :: "real \<Rightarrow> real \<Rightarrow> real" where
  "heightRange minV maxV =
     (if double (maxV - minV) = 0 then 1 else double (maxV - minV))"

definition generateHeight :: "ImageData \<Rightarrow> real \<Rightarrow> real \<Rightarrow> error + ImageData" where
  "generateHeight grayData minP maxP =
     (let w = width grayData; h = height grayData; d = data grayData
      in bindE (createBuffer w h None)
           (\<lambda>res.
              let minV = double (double (minP / 100) * 255);
                  maxV = double (double (maxP / 100) * 255);
                  range' = heightRange minV maxV
              in Inr (res\<lparr>data := generateHeightLoop minV maxV range' 0 d (data res)\<rparr>)))"

subsection \<open>generateDisplacement\<close>

function generateDisplacementLoop :: "real \<Rightarrow> nat \<Rightarrow> 8 word list \<Rightarrow> 8 word list" where
  "generateDisplacementLoop strength i d =
     (if i < length d then
        (let v = elem (d ! i);
             v = double (double (double (v - 128) * strength) + 128);
             v = max 0 (min 255 v)
         in generateDisplacementLoop strength (i + 4)
              (d[i := ToUint8Clamp v, i + 1 := ToUint8Clamp v,
                 i + 2 := ToUint8Clamp v, i + 3 := 255]))
      else d)"
  by pat_completeness auto
termination
  by (relation "measure (\<lambda>(strength, i, d). length d - i)") auto

declare generateDisplacementLoop.simps [simp del]

definition generateDisplacement :: "ImageData \<Rightarrow> real \<Rightarrow> error + ImageData" where
  "generateDisplacement heightData strength =
     bindE (createBuffer (width heightData) (height heightData) (Some (data heightData)))
       (\<lambda>res. Inr (res\<lparr>data := generateDisplacementLoop strength 0 (data res)\<rparr>))"

subsection \<open>generateRoughness\<close>

function generateRoughnessLoop :: "real \<Rightarrow> nat \<Rightarrow> 8 word list \<Rightarrow> 8 word list \<Rightarrow> 8 word list" where
  "generateRoughnessLoop shift i d rD =
     (if i < length d then
        (let v = double (255 - elem (d ! i));
             v = double (v + shift);
             v = max 0 (min 255 v)
         in generateRoughnessLoop shift (i + 4) d
              (rD[i := ToUint8Clamp v, i + 1 := ToUint8Clamp v,
                  i + 2 := ToUint8Clamp v, i + 3 := 255]))
      else rD)"
  by pat_completeness auto
termination
  by (relation "measure (\<lambda>(shift, i, d, rD). length d - i)") auto

declare generateRoughnessLoop.simps [simp del]

definition generateRoughness :: "ImageData \<Rightarrow> real \<Rightarrow> error + ImageData" where
  "generateRoughness heightData offset =
     bindE (createBuffer (width heightData) (height heightData) None)
       (\<lambda>res.
          let d = data heightData;
              shift = double (offset * 1.5)
          in Inr (res\<lparr>data := generateRoughnessLoop shift 0 d (data res)\<rparr>))"

subsection \<open>generateMetallic\<close>

function generateMetallicLoop :: "real \<Rightarrow> nat \<Rightarrow> 8 word list \<Rightarrow> 8 word list" where
  "generateMetallicLoop grayVal i d =
     (if i < length d then
        generateMetallicLoop grayVal (i + 4)
          (d[i := ToUint8Clamp grayVal, i + 1 := ToUint8Clamp grayVal,
             i + 2 := ToUint8Clamp grayVal, i + 3 := 255])
      else d)"
  by pat_completeness auto
termination
  by (relation "measure (\<lambda>(grayVal, i, d). length d - i)") auto

declare generateMetallicLoop.simps [simp del]

definition generateMetallic :: "nat \<Rightarrow> nat \<Rightarrow> real \<Rightarrow> error + ImageData" where
  "generateMetallic w h v =
     bindE (createBuffer w h None)
       (\<lambda>res.
          let grayVal = of_int \<lfloor>double (v * 255)\<rfloor>
          in Inr (res\<lparr>data := generateMetallicLoop grayVal 0 (data res)\<rparr>))"

subsection \<open>generateAO\<close>

text \<open>
  \<^verbatim>\<open>Math.pow\<close> on a base in \<open>[0, 1]\<close>: the power \<open>0\<close> gives \<open>1\<close>. The language leaves
  the accuracy of \<^verbatim>\<open>Math.pow\<close> to the implementation; here it is the power, rounded. The
  one infinite result on finite arguments, \<^verbatim>\<open>Math.pow(0, negative)\<close>, is written out in
  the loop: times 255 it is still \<^verbatim>\<open>Infinity\<close>, and \<^verbatim>\<open>Math.min(255, Infinity)\<close> is
  255.
\<close>

definition mathPow :: "real \<Rightarrow> real \<Rightarrow> real" where
  "mathPow n s = (if s = 0 then 1 else double (n powr s))"

function generateAOLoop :: "real \<Rightarrow> nat \<Rightarrow> 8 word list \<Rightarrow> 8 word list \<Rightarrow> 8 word list" where
  "generateAOLoop strength i d rD =
     (if i < length d then
        (let v = elem (d ! i);
             v = (if strength \<noteq> 1
                  then (if v = 0 \<and> strength < 0 then 255
                        else (let n = double (v / 255); n = mathPow n strength
                              in double (n * 255)))
                  else v);
             v = max 0 (min 255 v)
         in generateAOLoop strength (i + 4) d
              (rD[i := ToUint8Clamp v, i + 1 := ToUint8Clamp v,
                  i + 2 := ToUint8Clamp v, i + 3 := 255]))
      else rD)"
  by pat_completeness auto
termination
  by (relation "measure (\<lambda>(strength, i, d, rD). length d - i)") auto

declare generateAOLoop.simps [simp del]

definition generateAO :: "ImageData \<Rightarrow> nat \<Rightarrow> nat \<Rightarrow> real \<Rightarrow> error + ImageData" where
  "generateAO heightData w h strength =
     bindE (createBuffer w h None)
       (\<lambda>res. Inr (res\<lparr>data := generateAOLoop strength 0 (data heightData) (data res)\<rparr>))"

subsection \<open>generateNormal\<close>

definition idx :: "nat \<Rightarrow> nat \<Rightarrow> nat \<Rightarrow> nat" where
  "idx w x y = (y * w + x) * 4"

text \<open>A read of the source array: \<open>None\<close> is \<^verbatim>\<open>undefined\<close>, past the end.\<close>

definition srcAt :: "8 word list \<Rightarrow> nat \<Rightarrow> real option" where
  "srcAt src i = (if i < length src then Some (elem (src ! i)) else None)"

text \<open>
  The three numbers stored for pixel \<open>(x, y)\<close>. When one of the eight reads is
  \<^verbatim>\<open>undefined\<close>, \<open>len\<close> is \<^verbatim>\<open>NaN\<close> and so are all three: the result is \<open>None\<close>.
  \<^verbatim>\<open>Math.sqrt\<close> is the square root, rounded. \<open>len\<close> is 0 only when \<open>dX\<close> and \<open>dY\<close> are
  0 and the square of \<open>dZ\<close> rounds to 0 (a strength beyond \<open>10 ^ 160\<close>): the three
  quotients are then \<^verbatim>\<open>NaN\<close>, \<^verbatim>\<open>NaN\<close> and \<^verbatim>\<open>Infinity\<close>, which are stored as 0, 0 and
  255, and the triple \<open>(0, 0, 255)\<close> stands for them.
\<close>

definition normalPixel ::
  "8 word list \<Rightarrow> nat \<Rightarrow> nat \<Rightarrow> real \<Rightarrow> bool \<Rightarrow> nat \<Rightarrow> nat \<Rightarrow> (real \<times> real \<times> real) option" where
  "normalPixel src w h strength isDX x y =
     (let x1 = nat (max 0 (int x - 1)); x2 = nat (min (int w - 1) (int x + 1));
          y1 = nat (max 0 (int y - 1)); y2 = nat (min (int h - 1) (int y + 1))
      in do {
        tr \<leftarrow> srcAt src (idx w x2 y1);
        tl \<leftarrow> srcAt src (idx w x1 y1);
        l \<leftarrow> srcAt src (idx w x1 y);
        r \<leftarrow> srcAt src (idx w x2 y);
        bl \<leftarrow> srcAt src (idx w x1 y2);
        br \<leftarrow> srcAt src (idx w x2 y2);
        t \<leftarrow> srcAt src (idx w x y1);
        b \<leftarrow> srcAt src (idx w x y2);
        let dX = double (double (double (tr + double (2 * r)) + br)
                         - double (double (tl + double (2 * l)) + bl));
        let dY = double (double (double (bl + double (2 * b)) + br)
                         - double (double (tl + double (2 * t)) + tr));
        let dZ = double (255 / max (double 0.1) strength);
        let len = double (sqrt (double (double (double (dX * dX) + double (dY * dY))
                                        + double (dZ * dZ))));
        if len = 0 then Some (0, 0, 255)
        else do {
          let nx = double (double (double (dX / len) * 0.5) + 0.5);
          let ny = double (double (double (dY / len) * 0.5) + 0.5);
          let nz = double (double (double (dZ / len) * 0.5) + 0.5);
          let ny = (if \<not> isDX then double (1.0 - ny) else ny);
          Some (double (nx * 255), double (ny * 255), double (nz * 255))
        }
      })"

text \<open>The stores of one pixel: \<^verbatim>\<open>NaN\<close> is stored as 0.\<close>

definition normalStore :: "(real \<times> real \<times> real) option \<Rightarrow> nat \<Rightarrow> 8 word list \<Rightarrow> 8 word list" where
  "normalStore p i dst =
     (case p of
        Some (a, b, c) \<Rightarrow>
          dst[i := ToUint8Clamp a, i + 1 := ToUint8Clamp b, i + 2 := ToUint8Clamp c, i + 3 := 255]
      | None \<Rightarrow> dst[i := 0, i + 1 := 0, i + 2 := 0, i + 3 := 255])"

function generateNormalRow ::
  "8 word list \<Rightarrow> nat \<Rightarrow> nat \<Rightarrow> real \<Rightarrow> bool \<Rightarrow> nat \<Rightarrow> nat \<Rightarrow> 8 word list \<Rightarrow> 8 word list" where
  "generateNormalRow src w h strength isDX y x dst =
     (if x < w then
        generateNormalRow src w h strength isDX y (x + 1)
          (normalStore (normalPixel src w h strength isDX x y) (idx w x y) dst)
      else dst)"
  by pat_completeness auto
termination
  by (relation "measure (\<lambda>(src, w, h, strength, isDX, y, x, dst). w - x)") auto

declare generateNormalRow.simps [simp del]

function generateNormalRows ::
  "8 word list \<Rightarrow> nat \<Rightarrow> nat \<Rightarrow> real \<Rightarrow> bool \<Rightarrow> nat \<Rightarrow> 8 word list \<Rightarrow> 8 word list" where
  "generateNormalRows src w h strength isDX y dst =
     (if y < h then
        generateNormalRows src w h strength isDX (y + 1)
          (generateNormalRow src w h strength isDX y 0 dst)
      else dst)"
  by pat_completeness auto
termination
  by (relation "measure (\<lambda>(src, w, h, strength, isDX, y, dst). h - y)") auto

declare generateNormalRows.simps [simp del]

definition generateNormal :: "ImageData \<Rightarrow> nat \<Rightarrow> nat \<Rightarrow> real \<Rightarrow> bool \<Rightarrow> error + ImageData" where
  "generateNormal heightData w h strength isDX =
     bindE (createBuffer w h None)
       (\<lambda>res. Inr (res\<lparr>data := generateNormalRows (data heightData) w h strength isDX 0 (data res)\<rparr>))"

subsection \<open>The browser\<close>

text \<open>
  What the code asks of the page: whether the \<open>n\<close>-th canvas created during one call of
  \<^verbatim>\<open>generateTextures\<close> yields a 2D context (\<^verbatim>\<open>getContext('2d')\<close> may return
  \<^verbatim>\<open>null\<close>), and the serialisation \<^verbatim>\<open>canvas.toDataURL(type, quality)\<close> of a canvas
  that holds the given image.
\<close>

record Browser =
  getContext :: "nat \<Rightarrow> bool"
  toDataURL :: "ImageData \<Rightarrow> string \<Rightarrow> real \<Rightarrow> string"

definition imageDataToDataURL :: "Browser \<Rightarrow> nat \<Rightarrow> ImageData \<Rightarrow> string" where
  "imageDataToDataURL br n imageData =
     (if getContext br n then toDataURL br imageData ''image/jpeg'' 0.95 else '''')"

subsection \<open>generateTextures\<close>

text \<open>
  Steps 4 to 6 of \<^verbatim>\<open>generateTextures\<close>: the seven rasters, before they are encoded.
  \<open>canvasPixels\<close> is what \<^verbatim>\<open>ctx.getImageData(0, 0, width, height)\<close> reads back after
  \<^verbatim>\<open>drawCover\<close> and \<^verbatim>\<open>applyVisualBorder\<close> have drawn on the canvas (the browser's
  rasteriser; it is an input here). \<open>w\<close> and \<open>h\<close> are the code's \<open>width\<close> and \<open>height\<close>.
\<close>

record Buffers =
  albedoData :: ImageData
  normalData :: ImageData
  roughnessData :: ImageData
  metallicData :: ImageData
  heightData :: ImageData
  dispData :: ImageData
  aoData :: ImageData

definition textureBuffers :: "nat \<Rightarrow> nat \<Rightarrow> 8 word list \<Rightarrow> PBRParams \<Rightarrow> error + Buffers" where
  "textureBuffers w h canvasPixels params =
     (let albedoData = \<lparr>width = w, height = h, data = canvasPixels\<rparr>;
          t = top (borders params); r = right (borders params);
          b = bottom (borders params); l = left (borders params)
      in
      bindE (toGrayscale albedoData) (\<lambda>grayData.
      let grayData = applyDataBorder grayData t r b l 0 0 0 255 in
      bindE (generateHeight grayData (heightMin params) (heightMax params)) (\<lambda>heightData.
      let heightData = applyDataBorder heightData t r b l 0 0 0 255 in
      bindE (generateNormal heightData w h (normalStrength params) (normalMode params = DX))
        (\<lambda>normalData.
      bindE (generateDisplacement heightData (displacementStrength params)) (\<lambda>dispData.
      let dispData = applyDataBorder dispData t r b l 0 0 0 255 in
      bindE (generateRoughness heightData (roughness params)) (\<lambda>roughnessData.
      let roughnessData = applyDataBorder roughnessData t r b l 255 255 255 255 in
      bindE (generateMetallic w h (metallic params)) (\<lambda>metallicData.
      let metallicData = applyDataBorder metallicData t r b l 0 0 0 255 in
      bindE (generateAO heightData w h (aoStrength params)) (\<lambda>aoData.
      Inr \<lparr>albedoData = albedoData, normalData = normalData, roughnessData = roughnessData,
           metallicData = metallicData, heightData = heightData, dispData = dispData,
           aoData = aoData\<rparr>))))))))"

text \<open>
  The entry point. \<open>targetSize\<close> is its first statement, the pair \<open>[width, height]\<close>.
  Canvas 0 is the one it creates itself; the seven calls of \<^verbatim>\<open>imageDataToDataURL\<close>
  create canvases 1 to 7, in the order of the object literal.

  \<open>canvas\<close> is the outcome of the three statements that belong to the browser,
  \<^verbatim>\<open>drawCover\<close>, \<^verbatim>\<open>applyVisualBorder\<close> and \<^verbatim>\<open>ctx.getImageData\<close>, run on the source
  image once the context exists: the exception that one of them throws (\<^verbatim>\<open>drawImage\<close>
  on an image that failed to load, \<^verbatim>\<open>getImageData\<close> on a canvas tainted by a
  cross-origin image), or the pixels read back.
\<close>

definition targetSize :: "PBRParams \<Rightarrow> nat \<times> nat" where
  "targetSize params = (if resolution params = SQUARE_2K then (2048, 2048) else (2048, 1080))"

definition generateTextures ::
  "Browser \<Rightarrow> error + 8 word list \<Rightarrow> PBRParams \<Rightarrow> error + TextureSet" where
  "generateTextures br canvas params =
     (case targetSize params of
        (w, h) \<Rightarrow>
          if \<not> getContext br 0 then Inl (Error ''Failed to create canvas context'')
          else
            bindE canvas (\<lambda>canvasPixels.
            bindE (textureBuffers w h canvasPixels params) (\<lambda>m.
              Inr \<lparr>albedo = imageDataToDataURL br 1 (albedoData m),
                   normal = imageDataToDataURL br 2 (normalData m),
                   TextureSet.roughness = imageDataToDataURL br 3 (roughnessData m),
                   TextureSet.metallic = imageDataToDataURL br 4 (metallicData m),
                   TextureSet.height = imageDataToDataURL br 5 (heightData m),
                   displacement = imageDataToDataURL br 6 (dispData m),
                   ao = imageDataToDataURL br 7 (aoData m)\<rparr>)))"

subsection \<open>Observations used to state the properties\<close>

text \<open>The four bytes of pixel \<open>(x, y)\<close> of an array that holds rows of \<open>w\<close> pixels.\<close>

definition pixelAt :: "nat \<Rightarrow> 8 word list \<Rightarrow> nat \<Rightarrow> nat \<Rightarrow> 8 word \<times> 8 word \<times> 8 word \<times> 8 word" where
  "pixelAt w d x y =
     (d ! idx w x y, d ! (idx w x y + 1), d ! (idx w x y + 2), d ! (idx w x y + 3))"

text \<open>The bytes that a store of the four channel values leaves in a pixel.\<close>

definition stored :: "rgba \<Rightarrow> 8 word \<times> 8 word \<times> 8 word \<times> 8 word" where
  "stored c =
     (case c of (red, green, blue, alpha) \<Rightarrow>
        (ToUint8Clamp red, ToUint8Clamp green, ToUint8Clamp blue, ToUint8Clamp alpha))"

text \<open>
  The border band of a \<open>w\<close> by \<open>h\<close> image: the top \<open>t\<close> rows, the bottom \<open>b\<close> rows, the
  left \<open>l\<close> columns and the right \<open>r\<close> columns.
\<close>

definition inBorder :: "nat \<Rightarrow> nat \<Rightarrow> real \<Rightarrow> real \<Rightarrow> real \<Rightarrow> real \<Rightarrow> nat \<Rightarrow> nat \<Rightarrow> bool" where
  "inBorder w h t r b l x y =
     (real y < t \<or> real (h - 1 - y) < b \<or> real x < l \<or> real (w - 1 - x) < r)"

text \<open>A grey, opaque image: red, green and blue equal and alpha 255 at every pixel.\<close>

definition greyOpaque :: "ImageData \<Rightarrow> bool" where
  "greyOpaque img =
     (\<forall>x<width img. \<forall>y<height img.
        case pixelAt (width img) (data img) x y of
          (red, green, blue, alpha) \<Rightarrow> red = green \<and> green = blue \<and> alpha = 255)"

text \<open>The invariant of every \<^verbatim>\<open>ImageData\<close> object: positive size, four bytes a pixel.\<close>

definition isImageData :: "ImageData \<Rightarrow> bool" where
  "isImageData img =
     (0 < width img \<and> 0 < height img
      \<and> length (data img) = width img * height img * 4)"

subsection \<open>Inputs of the examples\<close>

text \<open>The defaults of the application (\<^verbatim>\<open>DEFAULT_PARAMS\<close> in \<^verbatim>\<open>src/App.tsx\<close>).\<close>

definition DEFAULT_PARAMS :: PBRParams where
  "DEFAULT_PARAMS =
     \<lparr>resolution = SQUARE_2K, normalStrength = 1.5, normalMode = DX,
      displacementStrength = 2.2, heightMin = 20, heightMax = 80, roughness = 0,
      metallic = 0.0, aoStrength = 1.0,
      borders = \<lparr>top = 0, bottom = 0, left = 0, right = 0, linked = True,
                 color = ''#808080''\<rparr>\<rparr>"

text \<open>
  Parameters no slider can produce: \<open>heightMin\<close> above \<open>heightMax\<close>, \<open>metallic\<close> outside
  \<open>[0, 1]\<close>, a top border thicker than the image is high.
\<close>

definition invalidParams :: PBRParams where
  "invalidParams =
     DEFAULT_PARAMS\<lparr>heightMin := 80, heightMax := 20, metallic := 7,
       borders := (borders DEFAULT_PARAMS)\<lparr>top := 5000\<rparr>\<rparr>"

text \<open>The defaults with a border of 16 pixels on every side.\<close>

definition borderParams :: PBRParams where
  "borderParams =
     DEFAULT_PARAMS\<lparr>borders := (borders DEFAULT_PARAMS)\<lparr>top := 16, bottom := 16, left := 16,
       right := 16\<rparr>\<rparr>"

text \<open>
  A canvas of 2048 by 2048 opaque black pixels (what \<^verbatim>\<open>drawCover\<close> leaves where the image
  does not reach).
\<close>

definition blackCanvas :: "8 word list" where
  "blackCanvas = concat (replicate (2048 * 2048) [0, 0, 0, 255])"

text \<open>A serialisation that only names the type it was asked for.\<close>

definition typeOnlyURL :: "ImageData \<Rightarrow> string \<Rightarrow> real \<Rightarrow> string" where
  "typeOnlyURL imageData type quality = ''data:'' @ type"

text \<open>
  Three pages: every canvas gets a 2D context; every canvas but the third of the
  encoder's; no canvas at all.
\<close>

definition everyCanvas :: "nat \<Rightarrow> bool" where
  "everyCanvas n = True"

definition allButThird :: "nat \<Rightarrow> bool" where
  "allButThird n = (n \<noteq> 3)"

definition noCanvas :: "nat \<Rightarrow> bool" where
  "noCanvas n = False"

definition workingBrowser :: Browser where
  "workingBrowser = \<lparr>getContext = everyCanvas, toDataURL = typeOnlyURL\<rparr>"

definition flakyBrowser :: Browser where
  "flakyBrowser = \<lparr>getContext = allButThird, toDataURL = typeOnlyURL\<rparr>"

definition headlessBrowser :: Browser where
  "headlessBrowser = \<lparr>getContext = noCanvas, toDataURL = typeOnlyURL\<rparr>"

section \<open>Rounding to doubles\<close>

text \<open>
  What the proofs need of \<open>double\<close>: how to compute it in a known binade
  (\<open>double_eval\<close>), that the integers and the halves of integers below \<open>2 ^ 53\<close> are
  doubles, and that rounding does not cross an integer.
\<close>

lemma roundHalfEven_of_int [simp]: "roundHalfEven (of_int k) = k"
  by (simp add: roundHalfEven_def)

lemma roundHalfEven_close: "\<bar>of_int (roundHalfEven x) - x\<bar> \<le> 1 / 2"
  unfolding roundHalfEven_def Let_def by (auto simp: abs_le_iff)

lemma roundHalfEven_le: "x \<le> of_int k \<Longrightarrow> roundHalfEven x \<le> k"
  unfolding roundHalfEven_def Let_def
  by (auto simp: floor_le_iff)

lemma roundHalfEven_ge: "of_int k \<le> x \<Longrightarrow> k \<le> roundHalfEven x"
proof -
  assume "of_int k \<le> x"
  hence "k \<le> \<lfloor>x\<rfloor>" by (simp add: le_floor_iff)
  thus ?thesis unfolding roundHalfEven_def Let_def by auto
qed

lemma double_0 [simp]: "double 0 = 0"
  by (simp add: double_def)

lemma binade_eq:
  assumes "2 powi e \<le> \<bar>x\<bar>" "\<bar>x\<bar> < 2 powi (e + 1)" "- 1022 \<le> e"
  shows "binade x = e"
proof -
  have pos: "0 < \<bar>x\<bar>" using assms(1) zero_less_power_int [of "2::real" e] by linarith
  have p1: "(2::real) powr real_of_int e = 2 powi e"
    by (rule powr_real_of_int') auto
  have "(2::real) powr real_of_int (e + 1) = 2 powi (e + 1)"
    by (rule powr_real_of_int') auto
  moreover have "real_of_int (e + 1) = real_of_int e + 1" by simp
  ultimately have p2: "(2::real) powr (real_of_int e + 1) = 2 powi (e + 1)"
    by metis
  have "2 powr real_of_int e \<le> \<bar>x\<bar> \<and> \<bar>x\<bar> < 2 powr (real_of_int e + 1)"
    unfolding p1 p2 using assms(1,2) by blast
  hence "\<lfloor>log 2 \<bar>x\<bar>\<rfloor> = e"
    using floor_log_eq_powr_iff [of "\<bar>x\<bar>" 2 e] pos by simp
  thus ?thesis using assms(3) by (simp add: binade_def)
qed

lemma double_eval:
  assumes "2 powi e \<le> \<bar>x\<bar>" "\<bar>x\<bar> < 2 powi (e + 1)" "- 1022 \<le> e"
  shows "double x = of_int (roundHalfEven (x / 2 powi (e - 52))) * 2 powi (e - 52)"
proof -
  have "0 < \<bar>x\<bar>" using assms(1) zero_less_power_int [of "2::real" e] by linarith
  hence "x \<noteq> 0" by auto
  thus ?thesis using binade_eq [OF assms] by (simp add: double_def)
qed

lemma double_eqI:
  assumes "2 powi e \<le> \<bar>x\<bar>" "\<bar>x\<bar> < 2 powi (e + 1)" "- 1022 \<le> e"
    and "roundHalfEven (x / 2 powi (e - 52)) = n" "y = of_int n * 2 powi (e - 52)"
  shows "double x = y"
  using double_eval [OF assms(1-3)] assms(4,5) by simp

lemma binade_le_52:
  assumes "\<bar>x\<bar> < 2 ^ 53"
  shows "binade x \<le> 52"
proof (cases "x = 0")
  case True
  thus ?thesis by (simp add: binade_def log_def)
next
  case False
  hence pos: "0 < \<bar>x\<bar>" by simp
  have "log 2 \<bar>x\<bar> < 53"
    using assms pos by (simp add: log_less_iff powr_realpow [symmetric] del: powr_numeral)
  hence "\<lfloor>log 2 \<bar>x\<bar>\<rfloor> < 53" by (simp add: floor_less_iff)
  thus ?thesis by (simp add: binade_def)
qed

lemma quantum_inverse:
  assumes "e \<le> 52"
  shows "1 / 2 powi (e - 52) = (2::real) ^ nat (52 - e)"
proof -
  have "(2::real) powi (e - 52) = 2 powi (- (52 - e))" by simp
  also have "\<dots> = inverse (2 powi (52 - e))" by (rule power_int_minus)
  also have "2 powi (52 - e) = (2::real) ^ nat (52 - e)"
    using assms by (simp add: power_int_def)
  finally show ?thesis by (simp add: field_simps)
qed

lemma of_int_quantum:
  assumes "e \<le> 52"
  shows "real_of_int k / 2 powi (e - 52) = of_int (k * 2 ^ nat (52 - e))"
proof -
  have "real_of_int k / 2 powi (e - 52) = real_of_int k * (1 / 2 powi (e - 52))" by simp
  also have "\<dots> = real_of_int k * 2 ^ nat (52 - e)"
    by (simp only: quantum_inverse [OF assms])
  finally show ?thesis by simp
qed

lemma double_of_int:
  assumes "\<bar>k\<bar> < 2 ^ 53"
  shows "double (of_int k) = of_int k"
proof (cases "k = 0")
  case True
  thus ?thesis by simp
next
  case False
  let ?x = "real_of_int k"
  have "\<bar>?x\<bar> < 2 ^ 53"
  proof -
    have "\<bar>?x\<bar> = real_of_int \<bar>k\<bar>" by simp
    also have "\<dots> < real_of_int (2 ^ 53)" using assms by (simp only: of_int_less_iff)
    finally show ?thesis by simp
  qed
  hence e: "binade ?x \<le> 52" by (rule binade_le_52)
  have q: "0 < (2::real) powi (binade ?x - 52)" by (simp add: zero_less_power_int)
  have "double ?x = of_int (roundHalfEven (?x / 2 powi (binade ?x - 52))) * 2 powi (binade ?x - 52)"
    using False by (simp add: double_def)
  also have "\<dots> = (?x / 2 powi (binade ?x - 52)) * 2 powi (binade ?x - 52)"
    by (simp only: of_int_quantum [OF e] roundHalfEven_of_int)
  also have "\<dots> = ?x" using q by simp
  finally show ?thesis .
qed

lemma double_le_of_int:
  assumes "\<bar>x\<bar> < 2 ^ 53" "x \<le> of_int k"
  shows "double x \<le> of_int k"
proof (cases "x = 0")
  case True
  thus ?thesis using assms(2) by simp
next
  case False
  let ?q = "(2::real) powi (binade x - 52)"
  have e: "binade x \<le> 52" using assms(1) by (rule binade_le_52)
  have q: "0 < ?q" by (simp add: zero_less_power_int)
  have "x / ?q \<le> real_of_int k / ?q" using assms(2) q by (simp add: divide_right_mono)
  hence "x / ?q \<le> of_int (k * 2 ^ nat (52 - binade x))"
    by (simp only: of_int_quantum [OF e])
  hence "roundHalfEven (x / ?q) \<le> k * 2 ^ nat (52 - binade x)" by (rule roundHalfEven_le)
  hence "real_of_int (roundHalfEven (x / ?q)) \<le> of_int (k * 2 ^ nat (52 - binade x))"
    by (simp only: of_int_le_iff)
  hence "real_of_int (roundHalfEven (x / ?q)) \<le> real_of_int k / ?q"
    by (simp only: of_int_quantum [OF e])
  hence "real_of_int (roundHalfEven (x / ?q)) * ?q \<le> real_of_int k"
    using q by (simp add: pos_le_divide_eq)
  thus ?thesis using False by (simp add: double_def)
qed

lemma double_ge_of_int:
  assumes "\<bar>x\<bar> < 2 ^ 53" "of_int k \<le> x"
  shows "of_int k \<le> double x"
proof (cases "x = 0")
  case True
  thus ?thesis using assms(2) by simp
next
  case False
  let ?q = "(2::real) powi (binade x - 52)"
  have e: "binade x \<le> 52" using assms(1) by (rule binade_le_52)
  have q: "0 < ?q" by (simp add: zero_less_power_int)
  have "real_of_int k / ?q \<le> x / ?q" using assms(2) q by (simp add: divide_right_mono)
  hence "of_int (k * 2 ^ nat (52 - binade x)) \<le> x / ?q"
    by (simp only: of_int_quantum [OF e])
  hence "k * 2 ^ nat (52 - binade x) \<le> roundHalfEven (x / ?q)" by (rule roundHalfEven_ge)
  hence "real_of_int (k * 2 ^ nat (52 - binade x)) \<le> of_int (roundHalfEven (x / ?q))"
    by (simp only: of_int_le_iff)
  hence "real_of_int k / ?q \<le> real_of_int (roundHalfEven (x / ?q))"
    by (simp only: of_int_quantum [OF e])
  hence "real_of_int k \<le> real_of_int (roundHalfEven (x / ?q)) * ?q"
    using q by (simp add: pos_divide_le_eq)
  thus ?thesis using False by (simp add: double_def)
qed

lemma double_example_06:
  "double (5404319552844595 / 2 ^ 53 * 255) = 153"
proof -
  let ?x = "5404319552844595 / 2 ^ 53 * 255 :: real"
  have "double ?x = of_int (roundHalfEven (?x / 2 powi (7 - 52))) * 2 powi (7 - 52)"
    by (rule double_eval) (simp_all add: power_int_minus)
  also have "\<dots> = 153"
    by (simp add: power_int_minus roundHalfEven_def Let_def)
  finally show ?thesis .
qed

lemma double_example_third:
  "double (6004799503160661 / 2 ^ 54 * 1.5) = 1 / 2"
proof -
  let ?x = "6004799503160661 / 2 ^ 54 * 1.5 :: real"
  have "double ?x = of_int (roundHalfEven (?x / 2 powi (- 2 - 52))) * 2 powi (- 2 - 52)"
    by (rule double_eval) (simp_all add: power_int_minus)
  also have "\<dots> = 1 / 2"
    by (simp add: power_int_minus roundHalfEven_def Let_def)
  finally show ?thesis .
qed


lemma binade_le_51:
  assumes "\<bar>x\<bar> < 2 ^ 52"
  shows "binade x \<le> 51"
proof (cases "x = 0")
  case True
  thus ?thesis by (simp add: binade_def log_def)
next
  case False
  hence pos: "0 < \<bar>x\<bar>" by simp
  have "log 2 \<bar>x\<bar> < 52"
    using assms pos by (simp add: log_less_iff powr_realpow [symmetric] del: powr_numeral)
  hence "\<lfloor>log 2 \<bar>x\<bar>\<rfloor> < 52" by (simp add: floor_less_iff)
  thus ?thesis by (simp add: binade_def)
qed

lemma double_half_int:
  assumes "\<bar>k\<bar> < 2 ^ 53"
  shows "double (of_int k / 2) = of_int k / 2"
proof (cases "k = 0")
  case True
  thus ?thesis by simp
next
  case False
  let ?x = "real_of_int k / 2"
  let ?e = "binade ?x"
  have "\<bar>real_of_int k\<bar> < 2 ^ 53"
  proof -
    have "\<bar>real_of_int k\<bar> = real_of_int \<bar>k\<bar>" by simp
    also have "\<dots> < real_of_int (2 ^ 53)" using assms by (simp only: of_int_less_iff)
    finally show ?thesis by simp
  qed
  hence "\<bar>?x\<bar> < 2 ^ 52" by simp
  hence e: "?e \<le> 51" by (rule binade_le_51)
  hence e': "?e \<le> 52" by simp
  have q: "0 < (2::real) powi (?e - 52)" by (simp add: zero_less_power_int)
  have "nat (52 - ?e) = Suc (nat (51 - ?e))" using e by simp
  hence p: "(2::int) ^ nat (52 - ?e) = 2 * 2 ^ nat (51 - ?e)" by simp
  have "?x / 2 powi (?e - 52) = (real_of_int k / 2 powi (?e - 52)) / 2" by simp
  also have "\<dots> = real_of_int (k * 2 ^ nat (52 - ?e)) / 2"
    by (simp only: of_int_quantum [OF e'])
  also have "\<dots> = real_of_int (k * 2 ^ nat (51 - ?e))"
    unfolding p by simp
  finally have i: "?x / 2 powi (?e - 52) = real_of_int (k * 2 ^ nat (51 - ?e))" .
  have "double ?x = of_int (roundHalfEven (?x / 2 powi (?e - 52))) * 2 powi (?e - 52)"
    using False by (simp add: double_def)
  also have "\<dots> = (?x / 2 powi (?e - 52)) * 2 powi (?e - 52)"
    by (simp only: i roundHalfEven_of_int)
  also have "\<dots> = ?x" using q by simp
  finally show ?thesis .
qed

lemma counter_exact:
  assumes "real n + 1 \<le> 2 ^ 53"
  shows "double (real n + 1) = real n + 1"
proof (cases "real n + 1 = 2 ^ 53")
  case True
  have "double (2 ^ 53) = of_int (roundHalfEven (2 ^ 53 / 2 powi (53 - 52))) * 2 powi (53 - 52)"
    by (rule double_eval) simp_all
  also have "\<dots> = 2 ^ 53"
    by (simp add: roundHalfEven_def Let_def)
  finally show ?thesis using True by simp
next
  case False
  with assms have "real n + 1 < 2 ^ 53" by simp
  hence "real_of_int (int n + 1) < real_of_int (2 ^ 53)" by simp
  hence "int n + 1 < 2 ^ 53" by (simp only: of_int_less_iff)
  hence "\<bar>int n + 1\<bar> < 2 ^ 53" by simp
  from double_of_int [OF this] show ?thesis by simp
qed

lemma counter_stalls: "double (2 ^ 53 + 1) = 2 ^ 53"
proof -
  have "double (2 ^ 53 + 1) =
      of_int (roundHalfEven ((2 ^ 53 + 1) / 2 powi (53 - 52))) * 2 powi (53 - 52)"
    by (rule double_eval) simp_all
  also have "\<dots> = 2 ^ 53"
    by (simp add: roundHalfEven_def Let_def)
  finally show ?thesis .
qed

lemma double_255_half: "double (1 / 2 * 255) = 255 / 2"
  using double_half_int [of 255] by simp

lemma double_tenth: "double 0.1 = 3602879701896397 / 2 ^ 55"
  by (rule double_eqI [where e = "- 4" and n = "7205759403792794"])
     (simp_all add: power_int_minus roundHalfEven_def Let_def)

lemma double_one_half: "double (1 / 2) = 1 / 2"
  using double_half_int [of 1] by simp

lemma double_255_halves: "double (255 / 2) = 255 / 2"
  using double_half_int [of 255] by simp

text \<open>The relative error of a rounding in the normal range is at most \<open>2 ^ (- 53)\<close>.\<close>

lemma binade_bounds:
  assumes "2 powi (- 1022) \<le> \<bar>x\<bar>"
  shows "2 powi (binade x) \<le> \<bar>x\<bar>" "- 1022 \<le> binade x"
proof -
  have pos: "0 < \<bar>x\<bar>" using assms zero_less_power_int [of "2::real" "- 1022"] by linarith
  let ?e = "\<lfloor>log 2 \<bar>x\<bar>\<rfloor>"
  have p: "(2::real) powr real_of_int k = 2 powi k" for k
    by (rule powr_real_of_int') auto
  have "2 powr real_of_int ?e \<le> \<bar>x\<bar>"
    using floor_log_eq_powr_iff [of "\<bar>x\<bar>" 2 ?e] pos by simp
  then have le: "2 powi ?e \<le> \<bar>x\<bar>" by (simp only: p)
  have "2 powr real_of_int (- 1022) \<le> \<bar>x\<bar>" using assms by (simp only: p)
  then have "real_of_int (- 1022) \<le> log 2 \<bar>x\<bar>"
    using pos by (simp add: le_log_iff del: powr_minus)
  then have ge: "- 1022 \<le> ?e" by (simp add: le_floor_iff)
  then have b: "binade x = ?e" by (simp add: binade_def)
  show "2 powi (binade x) \<le> \<bar>x\<bar>" unfolding b by (rule le)
  show "- 1022 \<le> binade x" unfolding b by (rule ge)
qed

lemma double_error:
  assumes "2 powi (- 1022) \<le> \<bar>x\<bar>"
  shows "\<bar>double x - x\<bar> \<le> \<bar>x\<bar> * 2 powi (- 53)"
proof -
  let ?e = "binade x"
  let ?q = "(2::real) powi (?e - 52)"
  have q: "0 < ?q" by (simp add: zero_less_power_int)
  have nz: "x \<noteq> 0"
    using assms zero_less_power_int [of "2::real" "- 1022"] by auto
  have d: "double x = of_int (roundHalfEven (x / ?q)) * ?q"
    using nz by (simp add: double_def)
  have "double x - x = (of_int (roundHalfEven (x / ?q)) - x / ?q) * ?q"
    unfolding d using q by (simp add: algebra_simps)
  then have "\<bar>double x - x\<bar> = \<bar>of_int (roundHalfEven (x / ?q)) - x / ?q\<bar> * ?q"
    using q by (simp add: abs_mult)
  also have "\<dots> \<le> 1 / 2 * ?q"
    using roundHalfEven_close [of "x / ?q"] q by (intro mult_right_mono) simp_all
  also have "1 / 2 * ?q = 2 powi ?e * 2 powi (- 53)"
  proof -
    have "(2::real) powi (?e - 52) = 2 powi ?e * 2 powi (- 52)"
      using power_int_add [of "2::real" ?e "- 52"] by simp
    moreover have "(1 / 2 :: real) * 2 powi (- 52) = 2 powi (- 53)"
      by (simp add: power_int_minus)
    ultimately show ?thesis by simp
  qed
  also have "\<dots> \<le> \<bar>x\<bar> * 2 powi (- 53)"
    using binade_bounds(1) [OF assms] by (intro mult_right_mono) simp_all
  finally show ?thesis .
qed

lemma double_lower:
  assumes "1 / 4 \<le> c" "c \<le> x"
  shows "c * (1 - 1 / 1000000) \<le> double x"
proof -
  have x: "0 < x" "1 / 4 \<le> x" using assms by simp_all
  have "(2::real) powi (- 1022) \<le> 2 powi (- 2)"
    by (rule power_int_increasing) simp_all
  also have "\<dots> = 1 / 4" by (simp add: power_int_minus)
  finally have n: "2 powi (- 1022) \<le> \<bar>x\<bar>" using x by simp
  have u: "(2::real) powi (- 53) \<le> 1 / 1000000" by (simp add: power_int_minus)
  have "\<bar>double x - x\<bar> \<le> \<bar>x\<bar> * 2 powi (- 53)" using n by (rule double_error)
  also have "\<dots> \<le> x * (1 / 1000000)"
    using x u by (simp add: mult_left_mono)
  finally have "\<bar>double x - x\<bar> \<le> x * (1 / 1000000)" .
  then have "x - x * (1 / 1000000) \<le> double x" by linarith
  moreover have "c * (1 - 1 / 1000000) \<le> x * (1 - 1 / 1000000)"
    using assms(2) by (intro mult_right_mono) simp_all
  ultimately show ?thesis by (simp add: algebra_simps)
qed

lemma double_upper:
  assumes "1 / 4 \<le> x" "x \<le> c"
  shows "double x \<le> c * (1 + 1 / 1000000)"
proof -
  have x: "0 < x" using assms by simp
  have "(2::real) powi (- 1022) \<le> 2 powi (- 2)"
    by (rule power_int_increasing) simp_all
  also have "\<dots> = 1 / 4" by (simp add: power_int_minus)
  finally have n: "2 powi (- 1022) \<le> \<bar>x\<bar>" using assms x by simp
  have u: "(2::real) powi (- 53) \<le> 1 / 1000000" by (simp add: power_int_minus)
  have "\<bar>double x - x\<bar> \<le> \<bar>x\<bar> * 2 powi (- 53)" using n by (rule double_error)
  also have "\<dots> \<le> x * (1 / 1000000)"
    using x u by (simp add: mult_left_mono)
  finally have "\<bar>double x - x\<bar> \<le> x * (1 / 1000000)" .
  then have "double x \<le> x + x * (1 / 1000000)" by linarith
  moreover have "x * (1 + 1 / 1000000) \<le> c * (1 + 1 / 1000000)"
    using assms(2) by (intro mult_right_mono) simp_all
  ultimately show ?thesis by (simp add: algebra_simps)
qed

section \<open>Bytes and indices\<close>

lemma ToUint8Clamp_of_int:
  assumes "0 \<le> k" "k \<le> 255"
  shows "ToUint8Clamp (of_int k) = word_of_int k"
proof -
  have "min (max (real_of_int k) 0) 255 = real_of_int k"
    using assms by (simp add: min_def max_def)
  then show ?thesis
    by (simp add: ToUint8Clamp_def Let_def)
qed

lemma ToUint8Clamp_elem: "ToUint8Clamp (elem b) = b"
proof -
  have "uint b < 256" using uint_bounded [of b] by simp
  then have "ToUint8Clamp (of_int (uint b)) = word_of_int (uint b)"
    by (intro ToUint8Clamp_of_int) simp_all
  then show ?thesis
    by (simp add: elem_def)
qed

lemma ToUint8Clamp_0: "ToUint8Clamp 0 = 0"
  using ToUint8Clamp_of_int [of 0] by simp

lemma ToUint8Clamp_255: "ToUint8Clamp 255 = 255"
  using ToUint8Clamp_of_int [of 255] by simp

lemma ToUint8Clamp_half: "ToUint8Clamp (255 / 2) = 128"
  by (simp add: ToUint8Clamp_def Let_def)

lemma ToUint8Clamp_top:
  assumes "509 / 2 < x"
  shows "ToUint8Clamp x = 255"
proof -
  define c where "c = min (max x 0) 255"
  have c: "509 / 2 < c" "c \<le> 255" using assms by (simp_all add: c_def)
  then have f: "\<lfloor>c\<rfloor> = 254 \<or> \<lfloor>c\<rfloor> = 255"
  proof -
    have "254 \<le> \<lfloor>c\<rfloor>" using c(1) by (simp add: le_floor_iff)
    moreover have "\<lfloor>c\<rfloor> \<le> 255" using c(2) by (simp add: floor_le_iff)
    ultimately show ?thesis by linarith
  qed
  have "(if c < of_int \<lfloor>c\<rfloor> + 1 / 2 then \<lfloor>c\<rfloor>
         else if of_int \<lfloor>c\<rfloor> + 1 / 2 < c then \<lfloor>c\<rfloor> + 1
         else if even \<lfloor>c\<rfloor> then \<lfloor>c\<rfloor> else \<lfloor>c\<rfloor> + 1) = 255"
    using f c by auto
  then show ?thesis
    unfolding ToUint8Clamp_def Let_def c_def [symmetric] by simp
qed

lemma idx_alt: "idx w x y = 4 * (y * w + x)"
  by (simp add: idx_def)

lemma idx_eq_iff:
  assumes "x < w" "x' < w" "k < 4" "k' < 4"
  shows "idx w x y + k = idx w x' y' + k' \<longleftrightarrow> x = x' \<and> y = y' \<and> k = k'"
proof
  assume e: "idx w x y + k = idx w x' y' + k'"
  have m: "(n * 4 + j) mod 4 = j" if "j < 4" for n j :: nat
    using that by (simp only: mod_mult_self3 mod_less)
  have "(idx w x y + k) mod 4 = k" "(idx w x' y' + k') mod 4 = k'"
    unfolding idx_def using assms by (simp_all only: m)
  with e have k: "k = k'" by simp
  with e have "y * w + x = y' * w + x'" by (simp add: idx_def)
  then have "(y * w + x) div w = (y' * w + x') div w" "(y * w + x) mod w = (y' * w + x') mod w"
    by simp_all
  with assms have "y = y'" "x = x'" by simp_all
  with k show "x = x' \<and> y = y' \<and> k = k'" by simp
qed simp

lemma idx_bound:
  assumes "x < w" "y < h" "k < 4"
  shows "idx w x y + k < w * h * 4"
proof -
  have "y * w + x < (y + 1) * w" using assms by simp
  also have "\<dots> \<le> h * w" using assms by (intro mult_right_mono) simp_all
  finally have "(y * w + x) + 1 \<le> w * h" by (simp add: mult.commute)
  then have "((y * w + x) + 1) * 4 \<le> w * h * 4" by (rule mult_right_mono) simp
  with assms show ?thesis by (simp add: idx_def)
qed

lemma upd4_nth:
  "j < length d \<Longrightarrow>
   d[i := a, i + 1 := b, i + 2 := c, i + 3 := e] ! j =
     (if j = i then a else if j = i + 1 then b else if j = i + 2 then c
      else if j = i + 3 then e else d ! j)"
  by (simp add: nth_list_update)

lemma upd4_pixel:
  assumes "4 * p + k < length d" "k < 4"
  shows "d[4 * q := a, 4 * q + 1 := a, 4 * q + 2 := a, 4 * q + 3 := e] ! (4 * p + k) =
     (if p = q then (if k = 3 then e else a) else d ! (4 * p + k))"
proof (cases "p = q")
  case True
  have "k = 0 \<or> k = 1 \<or> k = 2 \<or> k = 3" using assms(2) by linarith
  then show ?thesis using True assms(1) by (auto simp add: upd4_nth)
next
  case False
  then have "4 * p + k \<noteq> 4 * q" "4 * p + k \<noteq> 4 * q + 1" "4 * p + k \<noteq> 4 * q + 2"
    "4 * p + k \<noteq> 4 * q + 3"
    using assms(2) by presburger+
  then show ?thesis using False assms(1) by (simp only: upd4_nth if_False)
qed

section \<open>The one-dimensional loops, pixel by pixel\<close>

text \<open>
  Each loop visits the indices \<open>i, i + 4, \<dots>\<close>; started at a multiple \<open>4 * q\<close> of four it
  rewrites the pixels from \<open>q\<close> on and leaves the earlier ones as they are. Byte \<open>k\<close> of
  pixel \<open>p\<close> is at index \<open>4 * p + k\<close>.
\<close>

lemma generateMetallicLoop_length: "length (generateMetallicLoop g i d) = length d"
  by (induction g i d rule: generateMetallicLoop.induct)
     (subst generateMetallicLoop.simps, simp)

lemma generateMetallicLoop_nth:
  "i = 4 * q \<Longrightarrow> 4 * p + k < length d \<Longrightarrow> k < 4 \<Longrightarrow>
   generateMetallicLoop g i d ! (4 * p + k) =
     (if q \<le> p then (if k = 3 then 255 else ToUint8Clamp g) else d ! (4 * p + k))"
proof (induction g i d arbitrary: q rule: generateMetallicLoop.induct)
  case (1 g i d)
  let ?d' = "d[i := ToUint8Clamp g, i + 1 := ToUint8Clamp g,
               i + 2 := ToUint8Clamp g, i + 3 := 255]"
  show ?case
  proof (cases "i < length d")
    case False
    with 1(2,3) have "\<not> q \<le> p" by simp
    with False show ?thesis
      by (subst generateMetallicLoop.simps) simp
  next
    case True
    have step: "generateMetallicLoop g i d = generateMetallicLoop g (i + 4) ?d'"
      using True by (subst generateMetallicLoop.simps) simp
    have ih: "generateMetallicLoop g (i + 4) ?d' ! (4 * p + k) =
        (if q + 1 \<le> p then (if k = 3 then 255 else ToUint8Clamp g) else ?d' ! (4 * p + k))"
    proof -
      have e: "i + 4 = 4 * (q + 1)" using 1(2) by simp
      have l: "4 * p + k < length ?d'" using 1(3) by simp
      show ?thesis by (rule 1(1) [OF True e l 1(4)])
    qed
    have here: "?d' ! (4 * p + k) =
        (if p = q then (if k = 3 then 255 else ToUint8Clamp g) else d ! (4 * p + k))"
      unfolding \<open>i = 4 * q\<close> by (rule upd4_pixel [OF 1(3,4)])
    show ?thesis
      unfolding step ih here by auto
  qed
qed

lemma generateRoughnessLoop_length: "length (generateRoughnessLoop s i d rD) = length rD"
  by (induction s i d rD rule: generateRoughnessLoop.induct)
     (subst generateRoughnessLoop.simps, simp add: Let_def)

lemma generateRoughnessLoop_nth:
  "i = 4 * q \<Longrightarrow> 4 * p + k < length rD \<Longrightarrow> k < 4 \<Longrightarrow>
   generateRoughnessLoop s i d rD ! (4 * p + k) =
     (if q \<le> p \<and> 4 * p < length d
      then (if k = 3 then 255
            else ToUint8Clamp (max 0 (min 255 (double (double (255 - elem (d ! (4 * p))) + s)))))
      else rD ! (4 * p + k))"
proof (induction s i d rD arbitrary: q rule: generateRoughnessLoop.induct)
  case (1 s i d rD)
  let ?v = "ToUint8Clamp (max 0 (min 255 (double (double (255 - elem (d ! i)) + s))))"
  let ?d' = "rD[i := ?v, i + 1 := ?v, i + 2 := ?v, i + 3 := 255]"
  show ?case
  proof (cases "i < length d")
    case False
    with 1(2) have "\<not> (q \<le> p \<and> 4 * p < length d)" by simp
    with False show ?thesis
      by (subst generateRoughnessLoop.simps) auto
  next
    case True
    have step: "generateRoughnessLoop s i d rD = generateRoughnessLoop s (i + 4) d ?d'"
      using True by (subst generateRoughnessLoop.simps) (simp add: Let_def)
    have ih: "generateRoughnessLoop s (i + 4) d ?d' ! (4 * p + k) =
        (if q + 1 \<le> p \<and> 4 * p < length d
         then (if k = 3 then 255
               else ToUint8Clamp (max 0 (min 255 (double (double (255 - elem (d ! (4 * p))) + s)))))
         else ?d' ! (4 * p + k))"
    proof -
      have e: "i + 4 = 4 * (q + 1)" using 1(2) by simp
      have l: "4 * p + k < length ?d'" using 1(3) by simp
      show ?thesis by (rule 1(1) [OF True refl refl refl e l 1(4)])
    qed
    have here: "?d' ! (4 * p + k) = (if p = q then (if k = 3 then 255 else ?v) else rD ! (4 * p + k))"
      unfolding \<open>i = 4 * q\<close> by (rule upd4_pixel [OF 1(3,4)])
    show ?thesis
      unfolding step ih here using True \<open>i = 4 * q\<close> by auto
  qed
qed


lemma generateHeightLoop_length: "length (generateHeightLoop a b c i d rD) = length rD"
  by (induction a b c i d rD rule: generateHeightLoop.induct)
     (subst generateHeightLoop.simps, simp add: Let_def)

lemma generateHeightLoop_nth:
  "i = 4 * q \<Longrightarrow> 4 * p + k < length rD \<Longrightarrow> k < 4 \<Longrightarrow>
   generateHeightLoop minV maxV rg i d rD ! (4 * p + k) =
     (if q \<le> p \<and> 4 * p < length d
      then (if k = 3 then 255
            else ToUint8Clamp (double (double (double (max minV (min maxV (elem (d ! (4 * p)))) - minV) / rg) * 255)))
      else rD ! (4 * p + k))"
proof (induction minV maxV rg i d rD arbitrary: q rule: generateHeightLoop.induct)
  case (1 minV maxV rg i d rD)
  let ?v = "ToUint8Clamp (double (double (double (max minV (min maxV (elem (d ! i))) - minV) / rg) * 255))"
  let ?d' = "rD[i := ?v, i + 1 := ?v, i + 2 := ?v, i + 3 := 255]"
  show ?case
  proof (cases "i < length d")
    case False
    with 1(2) have "\<not> (q \<le> p \<and> 4 * p < length d)" by simp
    with False show ?thesis
      by (subst generateHeightLoop.simps) auto
  next
    case True
    have step: "generateHeightLoop minV maxV rg i d rD =
        generateHeightLoop minV maxV rg (i + 4) d ?d'"
      using True by (subst generateHeightLoop.simps) (simp add: Let_def)
    have ih: "generateHeightLoop minV maxV rg (i + 4) d ?d' ! (4 * p + k) =
        (if q + 1 \<le> p \<and> 4 * p < length d
         then (if k = 3 then 255
               else ToUint8Clamp
                 (double (double (double (max minV (min maxV (elem (d ! (4 * p)))) - minV) / rg)
                    * 255)))
         else ?d' ! (4 * p + k))"
    proof -
      have e: "i + 4 = 4 * (q + 1)" using 1(2) by simp
      have l: "4 * p + k < length ?d'" using 1(3) by simp
      show ?thesis by (rule 1(1) [OF True refl refl refl e l 1(4)])
    qed
    have here: "?d' ! (4 * p + k) = (if p = q then (if k = 3 then 255 else ?v) else rD ! (4 * p + k))"
      unfolding \<open>i = 4 * q\<close> by (rule upd4_pixel [OF 1(3,4)])
    show ?thesis
      unfolding step ih here using True \<open>i = 4 * q\<close> by auto
  qed
qed

lemma generateDisplacementLoop_length: "length (generateDisplacementLoop s i d) = length d"
  by (induction s i d rule: generateDisplacementLoop.induct)
     (subst generateDisplacementLoop.simps, simp add: Let_def)

lemma generateDisplacementLoop_nth:
  "i = 4 * q \<Longrightarrow> 4 * p + k < length d \<Longrightarrow> k < 4 \<Longrightarrow>
   generateDisplacementLoop s i d ! (4 * p + k) =
     (if q \<le> p
      then (if k = 3 then 255
            else ToUint8Clamp (max 0 (min 255 (double (double (double (elem (d ! (4 * p)) - 128) * s) + 128)))))
      else d ! (4 * p + k))"
proof (induction s i d arbitrary: q rule: generateDisplacementLoop.induct)
  case (1 s i d)
  let ?v = "ToUint8Clamp (max 0 (min 255 (double (double (double (elem (d ! i) - 128) * s) + 128))))"
  let ?d' = "d[i := ?v, i + 1 := ?v, i + 2 := ?v, i + 3 := 255]"
  show ?case
  proof (cases "i < length d")
    case False
    with 1(2,3) have "\<not> q \<le> p" by simp
    with False show ?thesis
      by (subst generateDisplacementLoop.simps) auto
  next
    case True
    have step: "generateDisplacementLoop s i d = generateDisplacementLoop s (i + 4) ?d'"
      using True by (subst generateDisplacementLoop.simps) (simp add: Let_def)
    have ih: "generateDisplacementLoop s (i + 4) ?d' ! (4 * p + k) =
        (if q + 1 \<le> p
         then (if k = 3 then 255
               else ToUint8Clamp
                      (max 0 (min 255 (double (double (double (elem (?d' ! (4 * p)) - 128) * s) + 128)))))
         else ?d' ! (4 * p + k))"
    proof -
      have e: "i + 4 = 4 * (q + 1)" using 1(2) by simp
      have l: "4 * p + k < length ?d'" using 1(3) by simp
      show ?thesis by (rule 1(1) [OF True refl refl refl e l 1(4)])
    qed
    have here: "?d' ! (4 * p + k) = (if p = q then (if k = 3 then 255 else ?v) else d ! (4 * p + k))"
      unfolding \<open>i = 4 * q\<close> by (rule upd4_pixel [OF 1(3,4)])
    have l0: "4 * p + 0 < length d" using 1(3) by simp
    have "?d' ! (4 * p + 0) = (if p = q then (if (0 :: nat) = 3 then 255 else ?v) else d ! (4 * p + 0))"
      unfolding \<open>i = 4 * q\<close> by (rule upd4_pixel [OF l0]) simp
    then have later: "?d' ! (4 * p) = d ! (4 * p)" if "q + 1 \<le> p"
      using that by simp
    consider "p < q" | "p = q" | "q + 1 \<le> p" by linarith
    then show ?thesis
    proof cases
      case 1
      then show ?thesis unfolding step ih here by simp
    next
      case 2
      then show ?thesis unfolding step ih here using \<open>i = 4 * q\<close> by simp
    next
      case 3
      then show ?thesis unfolding step ih here using later by simp
    qed
  qed
qed

lemma generateAOLoop_length: "length (generateAOLoop s i d rD) = length rD"
  by (induction s i d rD rule: generateAOLoop.induct)
     (subst generateAOLoop.simps, simp add: Let_def)

lemma toGrayscaleLoop_length: "length (toGrayscaleLoop i d) = length d"
  by (induction i d rule: toGrayscaleLoop.induct)
     (subst toGrayscaleLoop.simps, simp add: Let_def)

lemma pixelAt_eqI:
  assumes "\<And>k. k < 4 \<Longrightarrow> d ! (4 * (y * w + x) + k) = (if k = 3 then e else a)"
  shows "pixelAt w d x y = (a, a, a, e)"
  using assms [of 0] assms [of 1] assms [of 2] assms [of 3]
  by (simp add: pixelAt_def idx_alt)

lemma createBuffer_None:
  "0 < w \<Longrightarrow> 0 < h \<Longrightarrow>
   createBuffer w h None = Inr \<lparr>width = w, height = h, data = replicate (w * h * 4) 0\<rparr>"
  by (simp add: createBuffer_def newImageData_def)

lemma createBuffer_Some:
  assumes "isImageData img"
  shows "createBuffer (width img) (height img) (Some (data img)) = Inr img"
proof -
  let ?w = "width img" and ?h = "height img"
  from assms have w: "0 < ?w" and h: "0 < ?h" and l: "length (data img) = ?w * ?h * 4"
    by (simp_all add: isImageData_def)
  have "length (data img) \<noteq> 0" using w h l by simp
  moreover have "length (data img) mod 4 = 0" using l by simp
  moreover have d: "length (data img) div 4 = ?w * ?h" using l by simp
  moreover have "(?w * ?h) mod ?w = 0" by simp
  moreover have "(?w * ?h) div ?w = ?h" using w by simp
  ultimately show ?thesis
    using w by (simp add: createBuffer_def newImageDataFrom_def)
qed

lemma idx_in_data:
  assumes "isImageData img" "x < width img" "y < height img" "k < 4"
  shows "4 * (y * width img + x) + k < length (data img)"
  using idx_bound [OF assms(2,3,4)] assms(1) by (simp add: isImageData_def idx_alt)

lemma elem_uint: "elem b = real_of_int (uint b)"
  by (simp add: elem_def)

lemma elem_word_of_int:
  assumes "0 \<le> k" "k \<le> 255"
  shows "elem (word_of_int k :: 8 word) = of_int k"
proof -
  have "uint (word_of_int k :: 8 word) = k"
    using assms by (simp add: uint_word_of_int take_bit_int_eq_self)
  then show ?thesis by (simp only: elem_uint)
qed

lemma elem_range: "0 \<le> elem b" "elem b \<le> 255"
proof -
  have "0 \<le> uint b" by simp
  then show "0 \<le> elem b" by (simp only: elem_uint of_int_0_le_iff)
  have "uint b \<le> 255" using uint_bounded [of b] by simp
  then have "real_of_int (uint b) \<le> real_of_int 255" by (simp only: of_int_le_iff)
  then show "elem b \<le> 255" by (simp only: elem_uint of_int_numeral)
qed

lemma elem_numeral_examples:
  "elem (0 :: 8 word) = 0" "elem (80 :: 8 word) = 80" "elem (110 :: 8 word) = 110"
  "elem (100 :: 8 word) = 100" "elem (13 :: 8 word) = 13"
  by (simp_all add: elem_def)

lemma index_pixel:
  fixes w h j :: nat
  assumes "0 < w" "j < w * h * 4"
  obtains x y k where "x < w" "y < h" "k < 4" "j = 4 * (y * w + x) + k"
proof
  let ?p = "j div 4"
  show "?p mod w < w" using assms(1) by simp
  have "?p < w * h" using assms(2) by simp
  then have "?p < h * w" by (simp add: mult.commute)
  then show "?p div w < h" using assms(1) by (simp add: less_mult_imp_div_less)
  show "j mod 4 < 4" by simp
  have "?p div w * w + ?p mod w = ?p" by simp
  then show "j = 4 * (?p div w * w + ?p mod w) + j mod 4" by simp
qed

lemma greyOpaqueI:
  assumes "\<And>x y. x < width img \<Longrightarrow> y < height img \<Longrightarrow>
      \<exists>g. pixelAt (width img) (data img) x y = (g, g, g, 255)"
  shows "greyOpaque img"
  unfolding greyOpaque_def using assms by fastforce

lemma greyOpaqueD:
  assumes "greyOpaque img" "x < width img" "y < height img"
  shows "\<exists>g. pixelAt (width img) (data img) x y = (g, g, g, 255)"
proof -
  obtain r g b a where p: "pixelAt (width img) (data img) x y = (r, g, b, a)"
    by (cases "pixelAt (width img) (data img) x y") auto
  with assms have "r = g \<and> g = b \<and> a = 255"
    unfolding greyOpaque_def by fastforce
  with p show ?thesis by simp
qed

section \<open>generateMetallic\<close>

lemma generateMetallic_Inr:
  assumes "0 < w" "0 < h"
  shows "generateMetallic w h m =
     Inr \<lparr>width = w, height = h,
          data = generateMetallicLoop (of_int \<lfloor>double (m * 255)\<rfloor>) 0
                   (replicate (w * h * 4) 0)\<rparr>"
  using assms by (simp add: generateMetallic_def createBuffer_None bindE_def)

lemma generateMetallic_pixel:
  assumes "x < w" "y < h"
  shows "pixelAt w (generateMetallicLoop g 0 (replicate (w * h * 4) 0)) x y =
     (ToUint8Clamp g, ToUint8Clamp g, ToUint8Clamp g, 255)"
proof (rule pixelAt_eqI)
  fix k :: nat assume k: "k < 4"
  have "idx w x y + k < w * h * 4" using assms k by (rule idx_bound)
  then have l: "4 * (y * w + x) + k < length (replicate (w * h * 4) (0 :: 8 word))"
    by (simp add: idx_alt)
  show "generateMetallicLoop g 0 (replicate (w * h * 4) 0) ! (4 * (y * w + x) + k) =
      (if k = 3 then 255 else ToUint8Clamp g)"
    using generateMetallicLoop_nth [of 0 0, OF _ l k, of g] by simp
qed

text \<open>For \<open>metallic\<close> in \<open>[0, 1]\<close> the rounded product stays in \<open>[0, 255]\<close>.\<close>

lemma metallic_range:
  assumes "0 \<le> m" "m \<le> 1"
  shows "0 \<le> \<lfloor>double (m * 255)\<rfloor>" "\<lfloor>double (m * 255)\<rfloor> \<le> 255"
proof -
  have a: "\<bar>m * 255\<bar> < 2 ^ 53" using assms by (simp add: abs_if)
  have "real_of_int 0 \<le> m * 255" using assms by simp
  from double_ge_of_int [OF a this] show "0 \<le> \<lfloor>double (m * 255)\<rfloor>" by simp
  have "m * 255 \<le> real_of_int 255" using assms by simp
  from double_le_of_int [OF a this] show "\<lfloor>double (m * 255)\<rfloor> \<le> 255"
    by (simp add: floor_le_iff)
qed

text \<open>
  Claim C8. For every target width and height above 0 and every \<open>metallic\<close> in \<open>[0, 1]\<close>,
  \<^verbatim>\<open>generateMetallic\<close> returns a buffer of that size in which every pixel holds the same
  value in its three colour channels, and that value is \<open>floor (metallic * 255)\<close>, the
  product being the one the code computes, rounded to a double (alpha is 255); for
  \<open>metallic = 0.5\<close> every pixel is 127.
\<close>

theorem generateMetallic_uniform:
  assumes "0 < w" "0 < h" "0 \<le> m" "m \<le> 1"
  shows "\<exists>img. generateMetallic w h m = Inr img \<and> isImageData img
      \<and> width img = w \<and> height img = h
      \<and> (\<forall>x<w. \<forall>y<h. \<exists>g. pixelAt w (data img) x y = (g, g, g, 255)
                              \<and> uint g = \<lfloor>double (m * 255)\<rfloor>)
      \<and> (m = 1 / 2 \<longrightarrow> (\<forall>x<w. \<forall>y<h. pixelAt w (data img) x y = (127, 127, 127, 255)))"
proof -
  let ?g = "\<lfloor>double (m * 255)\<rfloor>"
  let ?img = "\<lparr>width = w, height = h,
      data = generateMetallicLoop (of_int ?g) 0 (replicate (w * h * 4) 0)\<rparr>"
  have g: "0 \<le> ?g" "?g \<le> 255"
    using assms(3,4) by (rule metallic_range)+
  have c: "ToUint8Clamp (of_int ?g) = word_of_int ?g"
    using g by (rule ToUint8Clamp_of_int)
  have u: "uint (word_of_int ?g :: 8 word) = ?g"
    using g by (simp add: uint_word_of_int take_bit_int_eq_self)
  have p: "pixelAt w (data ?img) x y = (word_of_int ?g, word_of_int ?g, word_of_int ?g, 255)"
    if "x < w" "y < h" for x y
    using generateMetallic_pixel [OF that, of "of_int ?g"] c by simp
  have "generateMetallic w h m = Inr ?img"
    using assms(1,2) by (rule generateMetallic_Inr)
  moreover have "isImageData ?img"
    using assms(1,2) by (simp add: isImageData_def generateMetallicLoop_length)
  moreover have "\<forall>x<w. \<forall>y<h. \<exists>g. pixelAt w (data ?img) x y = (g, g, g, 255) \<and> uint g = ?g"
    using p u by blast
  moreover have "m = 1 / 2 \<longrightarrow> (\<forall>x<w. \<forall>y<h. pixelAt w (data ?img) x y = (127, 127, 127, 255))"
  proof
    assume half: "m = 1 / 2"
    have "?g = 127" unfolding half double_255_half by simp
    with p show "\<forall>x<w. \<forall>y<h. pixelAt w (data ?img) x y = (127, 127, 127, 255)" by simp
  qed
  ultimately show ?thesis by (intro exI [of _ ?img]) simp
qed

text \<open>
  At \<open>metallic = 0.5\<close>, and at the double nearest to \<open>0.6\<close>, which is
  \<open>5404319552844595 / 2 ^ 53\<close>: there the product rounds up to 153, the value the code
  stores, while the exact product is below 153.
\<close>

theorem generateMetallic_uniform_witness:
  "(\<exists>img. generateMetallic 2 2 (1 / 2) = Inr img \<and> isImageData img
         \<and> pixelAt 2 (data img) 1 1 = (127, 127, 127, 255))
   \<and> (\<exists>img. generateMetallic 2 2 (5404319552844595 / 2 ^ 53) = Inr img
         \<and> pixelAt 2 (data img) 1 1 = (153, 153, 153, 255))
   \<and> \<lfloor>5404319552844595 / 2 ^ 53 * 255 :: real\<rfloor> = 152"
proof -
  have w: "g = 153" if "uint g = 153" for g :: "8 word"
  proof -
    have "g = word_of_int (uint g)" by simp
    also have "\<dots> = 153" unfolding that by simp
    finally show ?thesis .
  qed
  have a: "\<exists>img. generateMetallic 2 2 (1 / 2) = Inr img \<and> isImageData img
      \<and> pixelAt 2 (data img) 1 1 = (127, 127, 127, 255)"
    using generateMetallic_uniform [of 2 2 "1 / 2"] by auto
  have b: "\<exists>img. generateMetallic 2 2 (5404319552844595 / 2 ^ 53) = Inr img
      \<and> pixelAt 2 (data img) 1 1 = (153, 153, 153, 255)"
  proof -
    have r: "(0 :: real) \<le> 5404319552844595 / 2 ^ 53" "(5404319552844595 / 2 ^ 53 :: real) \<le> 1"
      by simp_all
    from generateMetallic_uniform [of 2 2 "5404319552844595 / 2 ^ 53", OF _ _ r]
    obtain img where
      i: "generateMetallic 2 2 (5404319552844595 / 2 ^ 53) = Inr img" and
      p: "\<forall>x<2. \<forall>y<2. \<exists>g. pixelAt 2 (data img) x y = (g, g, g, 255)
            \<and> uint g = \<lfloor>double (5404319552844595 / 2 ^ 53 * 255)\<rfloor>"
      by auto
    from p [rule_format, of 1 1]
    obtain g where "pixelAt 2 (data img) 1 1 = (g, g, g, 255)" "uint g = 153"
      unfolding double_example_06 by auto
    with w [of g] have "pixelAt 2 (data img) 1 1 = (153, 153, 153, 255)" by simp
    with i show ?thesis by blast
  qed
  have c: "\<lfloor>5404319552844595 / 2 ^ 53 * 255 :: real\<rfloor> = 152" by simp
  from a b c show ?thesis by blast
qed

text \<open>
  At the double nearest to \<open>1 / 255\<close> the product rounds up to 1, the value the code
  stores, while the exact product is below 1.
\<close>

lemma metallic_example:
  "\<lfloor>double (282578800148737 / 2 ^ 56 * 255)\<rfloor> = 1 \<and> \<lfloor>282578800148737 / 2 ^ 56 * 255 :: real\<rfloor> = 0"
proof -
  have m1: "double (282578800148737 / 2 ^ 56 * 255) = 1"
    by (rule double_eqI [where e = "- 1" and n = "9007199254740992"])
       (simp_all add: power_int_minus roundHalfEven_def Let_def)
  show ?thesis unfolding m1 by simp
qed

section \<open>generateRoughness\<close>

lemma generateRoughness_Inr:
  assumes "isImageData hm"
  shows "generateRoughness hm off =
     Inr \<lparr>width = width hm, height = height hm,
          data = generateRoughnessLoop (double (off * 1.5)) 0 (data hm)
                   (replicate (width hm * height hm * 4) 0)\<rparr>"
  using assms
  by (simp add: generateRoughness_def createBuffer_None bindE_def isImageData_def Let_def)

text \<open>\<open>255 - d[i]\<close> and \<open>d[i] - 128\<close> are integers: the subtraction is exact.\<close>

lemma double_255_minus_elem: "double (255 - elem b) = 255 - elem b"
proof -
  have d: "255 - elem b = real_of_int (255 - uint b)"
    by (simp only: elem_uint of_int_diff of_int_numeral)
  have u: "uint b \<le> 255" using uint_bounded [of b] by simp
  have n: "0 \<le> uint b" by simp
  from u n have "\<bar>255 - uint b\<bar> \<le> 255" by linarith
  then have "\<bar>255 - uint b\<bar> < 2 ^ 53" by simp
  from double_of_int [OF this] show ?thesis by (simp only: d)
qed

lemma double_elem_minus_128: "double (elem b - 128) = elem b - 128"
proof -
  have d: "elem b - 128 = real_of_int (uint b - 128)"
    by (simp only: elem_uint of_int_diff of_int_numeral)
  have u: "uint b \<le> 255" using uint_bounded [of b] by simp
  have n: "0 \<le> uint b" by simp
  from u n have "\<bar>uint b - 128\<bar> \<le> 128" by linarith
  then have "\<bar>uint b - 128\<bar> < 2 ^ 53" by simp
  from double_of_int [OF this] show ?thesis by (simp only: d)
qed

lemma double_elem: "double (elem b) = elem b"
proof -
  have "\<bar>uint b\<bar> < 2 ^ 53" using uint_bounded [of b] by simp
  from double_of_int [OF this] show ?thesis by (simp only: elem_uint)
qed

lemma generateRoughness_pixel:
  assumes "isImageData hm" "x < width hm" "y < height hm"
  shows "pixelAt (width hm)
           (generateRoughnessLoop s 0 (data hm) (replicate (width hm * height hm * 4) 0)) x y =
     (ToUint8Clamp (max 0 (min 255 (double (255 - elem (data hm ! idx (width hm) x y) + s)))),
      ToUint8Clamp (max 0 (min 255 (double (255 - elem (data hm ! idx (width hm) x y) + s)))),
      ToUint8Clamp (max 0 (min 255 (double (255 - elem (data hm ! idx (width hm) x y) + s)))),
      255)"
proof (rule pixelAt_eqI)
  fix k :: nat assume k: "k < 4"
  let ?p = "y * width hm + x"
  have l: "4 * ?p + k < length (data hm)" using assms k by (rule idx_in_data)
  then have l': "4 * ?p + k < length (replicate (width hm * height hm * 4) (0 :: 8 word))"
    using assms(1) by (simp add: isImageData_def)
  from l have "4 * ?p < length (data hm)" by simp
  then show "generateRoughnessLoop s 0 (data hm) (replicate (width hm * height hm * 4) 0)
        ! (4 * ?p + k) =
      (if k = 3 then 255
       else ToUint8Clamp
              (max 0 (min 255 (double (255 - elem (data hm ! idx (width hm) x y) + s)))))"
    using generateRoughnessLoop_nth [of 0 0, OF _ l' k, of s "data hm"]
    by (simp add: idx_alt double_255_minus_elem)
qed

text \<open>With offset 0 the stored byte is \<open>255 - height\<close>.\<close>

lemma roughness_zero:
  "elem (ToUint8Clamp (max 0 (min 255 (double (255 - elem b + double (0 * 1.5)))))) =
     255 - elem b"
proof -
  have d: "255 - elem b = real_of_int (255 - uint b)"
    by (simp only: elem_uint of_int_diff of_int_numeral)
  have "double (255 - elem b + double (0 * 1.5)) = double (255 - elem b)" by simp
  also have "\<dots> = 255 - elem b" by (rule double_255_minus_elem)
  finally have m: "max 0 (min 255 (double (255 - elem b + double (0 * 1.5)))) = 255 - elem b"
    using elem_range [of b] by simp
  have r: "0 \<le> 255 - uint b" "255 - uint b \<le> 255"
    using uint_bounded [of b] by simp_all
  have "elem (ToUint8Clamp (max 0 (min 255 (double (255 - elem b + double (0 * 1.5)))))) =
      elem (ToUint8Clamp (real_of_int (255 - uint b)))"
    by (simp only: m, simp only: d)
  also have "\<dots> = real_of_int (255 - uint b)"
    by (simp only: ToUint8Clamp_of_int [OF r] elem_word_of_int [OF r])
  also have "\<dots> = 255 - elem b"
    by (simp only: d)
  finally show ?thesis .
qed

text \<open>
  For an offset that is an integer (the slider gives the multiples of 5 from - 100 to 100)
  no operation rounds: the shift and the sum are halves of integers.
\<close>

lemma roughness_integer_offset:
  assumes "\<bar>j\<bar> \<le> 2 ^ 50"
  shows "double (255 - elem b + double (of_int j * 1.5)) = 255 - elem b + of_int j * 1.5"
proof -
  have s: "real_of_int j * 1.5 = real_of_int (3 * j) / 2" by simp
  have "\<bar>3 * j\<bar> < 2 ^ 53" using assms by simp
  from double_half_int [OF this] have shift: "double (real_of_int j * 1.5) = real_of_int j * 1.5"
    by (simp only: s)
  have d: "255 - elem b + real_of_int j * 1.5 = real_of_int (2 * (255 - uint b) + 3 * j) / 2"
    by (simp add: elem_uint)
  have u: "uint b \<le> 255" using uint_bounded [of b] by simp
  have n: "0 \<le> uint b" by simp
  have j: "j \<le> 1125899906842624" "- 1125899906842624 \<le> j"
    using assms by (simp_all add: abs_le_iff)
  from u n j have hi: "2 * (255 - uint b) + 3 * j < 9007199254740992" by presburger
  from u n j have lo: "- 9007199254740992 < 2 * (255 - uint b) + 3 * j" by presburger
  from hi lo have "\<bar>2 * (255 - uint b) + 3 * j\<bar> < 2 ^ 53" by (simp add: abs_less_iff)
  from double_half_int [OF this] show ?thesis
    by (simp only: shift d)
qed

text \<open>
  Claim C7. For every height buffer \<open>hm\<close> and every offset of magnitude up to \<open>2 ^ 1000\<close>
  (so that no product overflows), \<^verbatim>\<open>generateRoughness\<close> returns a buffer of the same size
  whose pixel \<open>(x, y)\<close> holds, in each colour channel, the 8-bit store of
  \<open>v = clamp ((255 - height) + roughnessOffset * 1.5, 0, 255)\<close>, where \<open>height\<close> is the red
  channel of pixel \<open>(x, y)\<close> of \<open>hm\<close> (alpha is 255). The product and the sum are the
  code's, each rounded to a double; for an integer offset, such as the slider gives,
  neither rounds and \<open>v\<close> is the exact value of the formula. With \<open>roughnessOffset = 0\<close>
  the stored value is exactly \<open>255 - height\<close>.
\<close>

theorem generateRoughness_formula:
  assumes "isImageData hm" and "\<bar>off\<bar> \<le> 2 ^ 1000"
  shows "\<exists>img. generateRoughness hm off = Inr img \<and> isImageData img
      \<and> width img = width hm \<and> height img = height hm
      \<and> (\<forall>x<width hm. \<forall>y<height hm.
            \<exists>v. pixelAt (width hm) (data img) x y = (v, v, v, 255)
              \<and> v = ToUint8Clamp
                      (max 0 (min 255 (double ((255 - elem (data hm ! idx (width hm) x y))
                                               + double (off * 1.5)))))
              \<and> (off \<in> \<int> \<and> \<bar>off\<bar> \<le> 100 \<longrightarrow>
                   v = ToUint8Clamp
                         (max 0 (min 255 ((255 - elem (data hm ! idx (width hm) x y))
                                          + off * 1.5))))
              \<and> (off = 0 \<longrightarrow> elem v = 255 - elem (data hm ! idx (width hm) x y)))"
proof -
  let ?img = "\<lparr>width = width hm, height = height hm,
      data = generateRoughnessLoop (double (off * 1.5)) 0 (data hm)
               (replicate (width hm * height hm * 4) 0)\<rparr>"
  have i: "double (255 - elem b + double (off * 1.5)) = 255 - elem b + off * 1.5"
    if "off \<in> \<int>" "\<bar>off\<bar> \<le> 100" for b
  proof -
    from that(1) obtain j where j: "off = of_int j" by (auto elim: Ints_cases)
    with that(2) have "\<bar>real_of_int j\<bar> \<le> 100" by simp
    then have "real_of_int \<bar>j\<bar> \<le> real_of_int 100" by simp
    then have "\<bar>j\<bar> \<le> 100" by (simp only: of_int_le_iff)
    then have "\<bar>j\<bar> \<le> 2 ^ 50" by simp
    from roughness_integer_offset [OF this] show ?thesis by (simp only: j)
  qed
  have "generateRoughness hm off = Inr ?img" using assms(1) by (rule generateRoughness_Inr)
  moreover have "isImageData ?img"
    using assms(1) by (simp add: isImageData_def generateRoughnessLoop_length)
  moreover have "\<forall>x<width hm. \<forall>y<height hm.
      \<exists>v. pixelAt (width hm) (data ?img) x y = (v, v, v, 255)
        \<and> v = ToUint8Clamp
                (max 0 (min 255 (double ((255 - elem (data hm ! idx (width hm) x y))
                                         + double (off * 1.5)))))
        \<and> (off \<in> \<int> \<and> \<bar>off\<bar> \<le> 100 \<longrightarrow>
             v = ToUint8Clamp
                   (max 0 (min 255 ((255 - elem (data hm ! idx (width hm) x y)) + off * 1.5))))
        \<and> (off = 0 \<longrightarrow> elem v = 255 - elem (data hm ! idx (width hm) x y))"
  proof (intro allI impI)
    fix x y assume xy: "x < width hm" "y < height hm"
    let ?b = "data hm ! idx (width hm) x y"
    let ?v = "ToUint8Clamp (max 0 (min 255 (double (255 - elem ?b + double (off * 1.5)))))"
    have "pixelAt (width hm) (data ?img) x y = (?v, ?v, ?v, 255)"
      using generateRoughness_pixel [OF assms(1) xy, of "double (off * 1.5)"] by simp
    moreover have "off \<in> \<int> \<and> \<bar>off\<bar> \<le> 100 \<longrightarrow>
        ?v = ToUint8Clamp (max 0 (min 255 (255 - elem ?b + off * 1.5)))"
      using i [of ?b] by simp
    moreover have "off = 0 \<longrightarrow> elem ?v = 255 - elem ?b"
      using roughness_zero [of ?b] by simp
    ultimately show "\<exists>v. pixelAt (width hm) (data ?img) x y = (v, v, v, 255)
        \<and> v = ToUint8Clamp (max 0 (min 255 (double ((255 - elem ?b) + double (off * 1.5)))))
        \<and> (off \<in> \<int> \<and> \<bar>off\<bar> \<le> 100 \<longrightarrow>
             v = ToUint8Clamp (max 0 (min 255 ((255 - elem ?b) + off * 1.5))))
        \<and> (off = 0 \<longrightarrow> elem v = 255 - elem ?b)"
      by blast
  qed
  ultimately show ?thesis by (intro exI [of _ ?img]) simp
qed

text \<open>
  On one pixel of height 100: offset 0 gives 155; offset 5 gives the shift 7.5 and the
  value 162.5, stored as the even 162; and the double nearest to one third, which is
  \<open>6004799503160661 / 2 ^ 54\<close>, gives a product just below one half that rounds to the
  shift 0.5, so that 155.5 is stored as the even 156.
\<close>

theorem generateRoughness_formula_witness:
  "isImageData \<lparr>width = 1, height = 1, data = [100, 100, 100, 255]\<rparr>
   \<and> (\<exists>img. generateRoughness \<lparr>width = 1, height = 1, data = [100, 100, 100, 255]\<rparr> 0 = Inr img
         \<and> pixelAt 1 (data img) 0 0 = (155, 155, 155, 255))
   \<and> (\<exists>img. generateRoughness \<lparr>width = 1, height = 1, data = [100, 100, 100, 255]\<rparr> 5 = Inr img
         \<and> pixelAt 1 (data img) 0 0 = (162, 162, 162, 255))
   \<and> (\<exists>img. generateRoughness \<lparr>width = 1, height = 1, data = [100, 100, 100, 255]\<rparr>
               (6004799503160661 / 2 ^ 54) = Inr img
         \<and> pixelAt 1 (data img) 0 0 = (156, 156, 156, 255))"
proof -
  let ?hm = "\<lparr>width = 1, height = 1, data = [100, 100, 100, 255 :: 8 word]\<rparr>"
  have i: "isImageData ?hm" by (simp add: isImageData_def)
  have e: "elem (100 :: 8 word) = 100" by (simp add: elem_def)
  have a: "ToUint8Clamp 155 = 155"
    by (simp add: ToUint8Clamp_def Let_def)
  have b: "ToUint8Clamp (325 / 2) = 162"
    by (simp add: ToUint8Clamp_def Let_def)
  have c: "ToUint8Clamp (311 / 2) = 156"
    by (simp add: ToUint8Clamp_def Let_def)
  have z: "double 155 = 155" using double_of_int [of 155] by simp
  have h: "double (311 / 2) = 311 / 2" using double_half_int [of 311] by simp
  have h15: "double (15 / 2) = 15 / 2" using double_half_int [of 15] by simp
  have h325: "double (325 / 2) = 325 / 2" using double_half_int [of 325] by simp
  have o: "\<bar>0 :: real\<bar> \<le> 2 ^ 1000" "\<bar>5 :: real\<bar> \<le> 2 ^ 1000"
    "\<bar>6004799503160661 / 2 ^ 54 :: real\<bar> \<le> 2 ^ 1000"
    by simp_all
  note t = generateRoughness_formula [OF i]
  have r0: "\<exists>img. generateRoughness ?hm 0 = Inr img
      \<and> pixelAt 1 (data img) 0 0 = (155, 155, 155, 255)"
  proof -
    from t [OF o(1)] obtain img where
      g: "generateRoughness ?hm 0 = Inr img" and
      p: "\<forall>x<width ?hm. \<forall>y<height ?hm.
            \<exists>v. pixelAt (width ?hm) (data img) x y = (v, v, v, 255)
              \<and> v = ToUint8Clamp
                      (max 0 (min 255 (double ((255 - elem (data ?hm ! idx (width ?hm) x y))
                                               + double (0 * 1.5)))))"
      by blast
    from p have "pixelAt 1 (data img) 0 0 = (155, 155, 155, 255)"
      by (auto simp add: idx_def e a z)
    with g show ?thesis by blast
  qed
  have r5: "\<exists>img. generateRoughness ?hm 5 = Inr img
      \<and> pixelAt 1 (data img) 0 0 = (162, 162, 162, 255)"
  proof -
    from t [OF o(2)] obtain img where
      g: "generateRoughness ?hm 5 = Inr img" and
      p: "\<forall>x<width ?hm. \<forall>y<height ?hm.
            \<exists>v. pixelAt (width ?hm) (data img) x y = (v, v, v, 255)
              \<and> v = ToUint8Clamp
                      (max 0 (min 255 (double ((255 - elem (data ?hm ! idx (width ?hm) x y))
                                               + double (5 * 1.5)))))"
      by blast
    from p have "pixelAt 1 (data img) 0 0 = (162, 162, 162, 255)"
      by (auto simp add: idx_def e b h15 h325)
    with g show ?thesis by blast
  qed
  have r3: "\<exists>img. generateRoughness ?hm (6004799503160661 / 2 ^ 54) = Inr img
      \<and> pixelAt 1 (data img) 0 0 = (156, 156, 156, 255)"
  proof -
    from t [OF o(3)] obtain img where
      g: "generateRoughness ?hm (6004799503160661 / 2 ^ 54) = Inr img" and
      p: "\<forall>x<width ?hm. \<forall>y<height ?hm.
            \<exists>v. pixelAt (width ?hm) (data img) x y = (v, v, v, 255)
              \<and> v = ToUint8Clamp
                      (max 0 (min 255 (double ((255 - elem (data ?hm ! idx (width ?hm) x y))
                                               + double (6004799503160661 / 2 ^ 54 * 1.5)))))"
      by blast
    from p have "pixelAt 1 (data img) 0 0 = (156, 156, 156, 255)"
      unfolding double_example_third by (auto simp add: idx_def e c h)
    with g show ?thesis by blast
  qed
  from i r0 r5 r3 show ?thesis by blast
qed

section \<open>generateDisplacement\<close>

lemma generateDisplacement_Inr:
  assumes "isImageData hm"
  shows "generateDisplacement hm s =
     Inr (hm\<lparr>data := generateDisplacementLoop s 0 (data hm)\<rparr>)"
  using assms by (simp add: generateDisplacement_def createBuffer_Some bindE_def)

lemma generateDisplacement_pixel:
  assumes "isImageData hm" "x < width hm" "y < height hm"
  shows "pixelAt (width hm) (generateDisplacementLoop s 0 (data hm)) x y =
     (ToUint8Clamp (max 0 (min 255
        (double (double ((elem (data hm ! idx (width hm) x y) - 128) * s) + 128)))),
      ToUint8Clamp (max 0 (min 255
        (double (double ((elem (data hm ! idx (width hm) x y) - 128) * s) + 128)))),
      ToUint8Clamp (max 0 (min 255
        (double (double ((elem (data hm ! idx (width hm) x y) - 128) * s) + 128)))),
      255)"
proof (rule pixelAt_eqI)
  fix k :: nat assume k: "k < 4"
  let ?p = "y * width hm + x"
  have l: "4 * ?p + k < length (data hm)" using assms k by (rule idx_in_data)
  show "generateDisplacementLoop s 0 (data hm) ! (4 * ?p + k) =
      (if k = 3 then 255
       else ToUint8Clamp
              (max 0 (min 255
                 (double (double ((elem (data hm ! idx (width hm) x y) - 128) * s) + 128)))))"
    using generateDisplacementLoop_nth [of 0 0, OF _ l k, of s]
    by (simp add: idx_alt double_elem_minus_128)
qed

text \<open>At strength 1 the three operations are exact and give back the byte.\<close>

lemma displacement_one:
  "ToUint8Clamp (max 0 (min 255 (double (double (double (elem b - 128) * 1) + 128)))) = b"
proof -
  have "double (double (double (elem b - 128) * 1) + 128) = double (elem b - 128 + 128)"
    by (simp add: double_elem_minus_128)
  also have "\<dots> = elem b" by (simp add: double_elem)
  finally have "max 0 (min 255 (double (double (double (elem b - 128) * 1) + 128))) = elem b"
    using elem_range [of b] by simp
  then show ?thesis by (simp only: ToUint8Clamp_elem)
qed

text \<open>
  Claim C6. For every height buffer \<open>hm\<close> (a grey, opaque image, which is what
  \<^verbatim>\<open>generateHeight\<close> returns and what \<^verbatim>\<open>applyDataBorder\<close> with the black border
  keeps: lemmas \<open>generateHeight_greyOpaque\<close> and \<open>applyDataBorder_greyOpaque\<close> below),
  \<^verbatim>\<open>generateDisplacement\<close> with strength 1 returns a buffer equal to its input, byte for
  byte.
\<close>

theorem generateDisplacement_identity:
  assumes "isImageData hm" and "greyOpaque hm"
  shows "generateDisplacement hm 1 = Inr hm"
proof -
  let ?w = "width hm" and ?h = "height hm" and ?d = "data hm"
  from assms(1) have w: "0 < ?w" and len: "length ?d = ?w * ?h * 4"
    by (simp_all add: isImageData_def)
  have "generateDisplacementLoop 1 0 ?d = ?d"
  proof (rule nth_equalityI)
    show "length (generateDisplacementLoop 1 0 ?d) = length ?d"
      by (rule generateDisplacementLoop_length)
  next
    fix j assume "j < length (generateDisplacementLoop 1 0 ?d)"
    then have j: "j < ?w * ?h * 4" by (simp add: generateDisplacementLoop_length len)
    from w j obtain x y k where xyk: "x < ?w" "y < ?h" "k < 4" "j = 4 * (y * ?w + x) + k"
      by (rule index_pixel)
    from greyOpaqueD [OF assms(2) xyk(1,2)] obtain g where
      g: "pixelAt ?w ?d x y = (g, g, g, 255)" ..
    have l: "4 * (y * ?w + x) + k < length ?d" using j xyk(4) len by simp
    have new: "generateDisplacementLoop 1 0 ?d ! (4 * (y * ?w + x) + k) =
        (if k = 3 then 255 else ?d ! (4 * (y * ?w + x)))"
      using generateDisplacementLoop_nth [of 0 0, OF _ l xyk(3), of 1]
      by (simp only: displacement_one) simp
    have "k = 0 \<or> k = 1 \<or> k = 2 \<or> k = 3" using xyk(3) by linarith
    then have old: "?d ! (4 * (y * ?w + x) + k) = (if k = 3 then 255 else ?d ! (4 * (y * ?w + x)))"
      using g by (auto simp add: pixelAt_def idx_alt)
    show "generateDisplacementLoop 1 0 ?d ! j = ?d ! j"
      unfolding xyk(4) new old ..
  qed
  then show ?thesis
    using generateDisplacement_Inr [OF assms(1), of 1] by simp
qed

theorem generateDisplacement_identity_witness:
  "isImageData \<lparr>width = 2, height = 1, data = [7, 7, 7, 255, 200, 200, 200, 255]\<rparr>
   \<and> greyOpaque \<lparr>width = 2, height = 1, data = [7, 7, 7, 255, 200, 200, 200, 255]\<rparr>
   \<and> generateDisplacement \<lparr>width = 2, height = 1, data = [7, 7, 7, 255, 200, 200, 200, 255]\<rparr> 1
       = Inr \<lparr>width = 2, height = 1, data = [7, 7, 7, 255, 200, 200, 200, 255]\<rparr>"
proof -
  let ?hm = "\<lparr>width = 2, height = 1, data = [7, 7, 7, 255, 200, 200, 200, 255 :: 8 word]\<rparr>"
  have i: "isImageData ?hm" by (simp add: isImageData_def)
  have g: "greyOpaque ?hm"
  proof (rule greyOpaqueI)
    fix x y :: nat assume "x < width ?hm" "y < height ?hm"
    then have "y = 0" "x = 0 \<or> x = 1" by auto
    then show "\<exists>g. pixelAt (width ?hm) (data ?hm) x y = (g, g, g, 255)"
      by (auto simp add: pixelAt_def idx_def)
  qed
  show ?thesis using generateDisplacement_identity [OF i g] i g by simp
qed

text \<open>
  One rounding, computed: the byte 13 at the strength \<open>2476979795053773 / 2 ^ 51\<close>, the
  double nearest to 1.1. The product is just below \<open>- 126.5\<close>, the sum just below 1.5,
  and 1 is stored.
\<close>

lemma generateDisplacementLoop_one_pixel:
  "generateDisplacementLoop s 0 [r, g, b, a] =
     [ToUint8Clamp (max 0 (min 255 (double (double (double (elem r - 128) * s) + 128)))),
      ToUint8Clamp (max 0 (min 255 (double (double (double (elem r - 128) * s) + 128)))),
      ToUint8Clamp (max 0 (min 255 (double (double (double (elem r - 128) * s) + 128)))),
      255]"
  by (subst generateDisplacementLoop.simps, subst generateDisplacementLoop.simps)
     (simp add: Let_def)

lemma displacement_value:
  "double (double (double (13 - 128) * (2476979795053773 / 2 ^ 51)) + 128) =
     105553116266495 / 2 ^ 46"
proof -
  have d: "double (13 - 128) = - 115"
    using double_of_int [of "- 115"] by simp
  have pr: "double (- 115 * (2476979795053773 / 2 ^ 51)) = - (8901646138474497 / 2 ^ 46)"
    by (rule double_eqI [where e = "6" and n = "- 8901646138474497"])
       (simp_all add: power_int_minus roundHalfEven_def Let_def)
  have sm: "double (- (8901646138474497 / 2 ^ 46) + 128) = 105553116266495 / 2 ^ 46"
    by (rule double_eqI [where e = "0" and n = "6755399441055680"])
       (simp_all add: power_int_minus roundHalfEven_def Let_def)
  show ?thesis by (simp only: d pr sm)
qed

lemma generateDisplacement_example:
  "generateDisplacement \<lparr>width = 1, height = 1, data = [13, 13, 13, 255]\<rparr>
       (2476979795053773 / 2 ^ 51) =
     Inr \<lparr>width = 1, height = 1, data = [1, 1, 1, 255]\<rparr>"
proof -
  let ?img = "\<lparr>width = 1, height = 1, data = [13, 13, 13, 255 :: 8 word]\<rparr>"
  have i: "isImageData ?img" by (simp add: isImageData_def)
  have c: "max 0 (min 255 (105553116266495 / 2 ^ 46)) = (105553116266495 / 2 ^ 46 :: real)"
    by simp
  have b: "ToUint8Clamp (105553116266495 / 2 ^ 46) = 1"
    by (simp add: ToUint8Clamp_def Let_def)
  have "generateDisplacementLoop (2476979795053773 / 2 ^ 51) 0 [13, 13, 13, 255] = [1, 1, 1, 255]"
    by (simp only: generateDisplacementLoop_one_pixel elem_numeral_examples displacement_value c b)
  then show ?thesis
    using generateDisplacement_Inr [OF i] by simp
qed

section \<open>generateHeight\<close>

lemma heightRange_nonzero: "heightRange minV maxV \<noteq> 0"
  by (simp add: heightRange_def)

lemma heightRange_same: "heightRange v v = 1"
  by (simp add: heightRange_def)

lemma generateHeight_Inr:
  assumes "isImageData g"
  shows "generateHeight g minP maxP =
     Inr \<lparr>width = width g, height = height g,
          data = generateHeightLoop (double (double (minP / 100) * 255))
                   (double (double (maxP / 100) * 255))
                   (heightRange (double (double (minP / 100) * 255))
                      (double (double (maxP / 100) * 255))) 0 (data g)
                   (replicate (width g * height g * 4) 0)\<rparr>"
  using assms
  by (simp add: generateHeight_def createBuffer_None bindE_def isImageData_def Let_def)

lemma generateHeight_pixel:
  assumes "isImageData g" "x < width g" "y < height g"
  shows "pixelAt (width g)
           (generateHeightLoop minV maxV rg 0 (data g) (replicate (width g * height g * 4) 0)) x y =
     (ToUint8Clamp (double (double (double
        (max minV (min maxV (elem (data g ! idx (width g) x y))) - minV) / rg) * 255)),
      ToUint8Clamp (double (double (double
        (max minV (min maxV (elem (data g ! idx (width g) x y))) - minV) / rg) * 255)),
      ToUint8Clamp (double (double (double
        (max minV (min maxV (elem (data g ! idx (width g) x y))) - minV) / rg) * 255)),
      255)"
proof (rule pixelAt_eqI)
  fix k :: nat assume k: "k < 4"
  let ?p = "y * width g + x"
  have l: "4 * ?p + k < length (data g)" using assms k by (rule idx_in_data)
  then have l': "4 * ?p + k < length (replicate (width g * height g * 4) (0 :: 8 word))"
    using assms(1) by (simp add: isImageData_def)
  from l have "4 * ?p < length (data g)" by simp
  then show "generateHeightLoop minV maxV rg 0 (data g) (replicate (width g * height g * 4) 0)
        ! (4 * ?p + k) =
      (if k = 3 then 255
       else ToUint8Clamp (double (double (double
              (max minV (min maxV (elem (data g ! idx (width g) x y))) - minV) / rg) * 255)))"
    using generateHeightLoop_nth [of 0 0, OF _ l' k, of minV maxV rg "data g"]
    by (simp add: idx_alt)
qed

lemma generateHeight_greyOpaque:
  assumes "isImageData g" "generateHeight g minP maxP = Inr img"
  shows "greyOpaque img"
proof (rule greyOpaqueI)
  fix x y assume xy: "x < width img" "y < height img"
  let ?minV = "double (double (minP / 100) * 255)"
  let ?maxV = "double (double (maxP / 100) * 255)"
  from assms have img: "img = \<lparr>width = width g, height = height g,
      data = generateHeightLoop ?minV ?maxV (heightRange ?minV ?maxV) 0 (data g)
               (replicate (width g * height g * 4) 0)\<rparr>"
    by (simp add: generateHeight_Inr)
  from xy have "x < width g" "y < height g" by (simp_all add: img)
  from generateHeight_pixel [OF assms(1) this]
  show "\<exists>g. pixelAt (width img) (data img) x y = (g, g, g, 255)"
    by (simp add: img)
qed

text \<open>
  Claim C5. For the degenerate input \<open>heightMin = heightMax\<close> (both \<open>p\<close>, for example 50),
  \<^verbatim>\<open>generateHeight\<close> divides by a range of 1, not 0 (the range of two equal thresholds
  is 1, whatever they are), and returns a fully defined buffer of the size of its input:
  every pixel is \<open>(0, 0, 0, 255)\<close>.
\<close>

theorem generateHeight_degenerate:
  assumes "isImageData g"
  shows "(\<forall>v. heightRange v v = 1)
     \<and> (\<exists>img. generateHeight g p p = Inr img \<and> isImageData img
           \<and> width img = width g \<and> height img = height g
           \<and> (\<forall>x<width g. \<forall>y<height g. pixelAt (width g) (data img) x y = (0, 0, 0, 255)))"
proof -
  let ?v = "double (double (p / 100) * 255)"
  let ?img = "\<lparr>width = width g, height = height g,
      data = generateHeightLoop ?v ?v (heightRange ?v ?v) 0 (data g)
               (replicate (width g * height g * 4) 0)\<rparr>"
  have r: "\<forall>v. heightRange v v = 1" by (simp add: heightRange_same)
  have "generateHeight g p p = Inr ?img" using assms by (rule generateHeight_Inr)
  moreover have "isImageData ?img"
    using assms by (simp add: isImageData_def generateHeightLoop_length)
  moreover have "pixelAt (width g) (data ?img) x y = (0, 0, 0, 255)"
    if "x < width g" "y < height g" for x y
    using generateHeight_pixel [OF assms that, of ?v ?v "heightRange ?v ?v"]
    by (simp add: ToUint8Clamp_0)
  ultimately show ?thesis using r by (intro conjI exI [of _ ?img]) simp_all
qed

theorem generateHeight_degenerate_witness:
  "isImageData \<lparr>width = 1, height = 1, data = [90, 90, 90, 255]\<rparr>
   \<and> heightRange (50 / 100 * 255) (50 / 100 * 255) = 1
   \<and> (\<exists>img. generateHeight \<lparr>width = 1, height = 1, data = [90, 90, 90, 255]\<rparr> 50 50 = Inr img
         \<and> pixelAt 1 (data img) 0 0 = (0, 0, 0, 255))"
proof -
  let ?g = "\<lparr>width = 1, height = 1, data = [90, 90, 90, 255 :: 8 word]\<rparr>"
  have i: "isImageData ?g" by (simp add: isImageData_def)
  show ?thesis using generateHeight_degenerate [OF i, of 50] i by auto
qed

text \<open>
  One rounding, computed: the grey value 100 with \<open>heightMin = 20\<close> and \<open>heightMax = 76\<close>.
  The thresholds are 51 and the double next to 193.8; in exact arithmetic the rescaled value
  would be 87.5, the rounded quotient and product give a value just below it, and 87 is
  stored.
\<close>

lemma generateHeightLoop_one_pixel:
  "generateHeightLoop minV maxV rg 0 [r, g, b, a] [r', g', b', a'] =
     [ToUint8Clamp (double (double (double (max minV (min maxV (elem r)) - minV) / rg) * 255)),
      ToUint8Clamp (double (double (double (max minV (min maxV (elem r)) - minV) / rg) * 255)),
      ToUint8Clamp (double (double (double (max minV (min maxV (elem r)) - minV) / rg) * 255)),
      255]"
  by (subst generateHeightLoop.simps, subst generateHeightLoop.simps) (simp add: Let_def)

lemma height_thresholds:
  "double (double (20 / 100) * 255) = 51"
  "double (double (76 / 100) * 255) = 3409365655407821 / 2 ^ 44"
  "heightRange 51 (3409365655407821 / 2 ^ 44) = 2512164167142605 / 2 ^ 44"
proof -
  have q1: "double (20 / 100) = 3602879701896397 / 2 ^ 54"
    by (rule double_eqI [where e = "- 3" and n = "7205759403792794"])
       (simp_all add: power_int_minus roundHalfEven_def Let_def)
  have minV: "double (3602879701896397 / 2 ^ 54 * 255) = 51"
    by (rule double_eqI [where e = "5" and n = "7177611906121728"])
       (simp_all add: power_int_minus roundHalfEven_def Let_def)
  have q2: "double (76 / 100) = 3422735716801577 / 2 ^ 52"
    by (rule double_eqI [where e = "- 1" and n = "6845471433603154"])
       (simp_all add: power_int_minus roundHalfEven_def Let_def)
  have maxV: "double (3422735716801577 / 2 ^ 52 * 255) = 3409365655407821 / 2 ^ 44"
    by (rule double_eqI [where e = "7" and n = "6818731310815642"])
       (simp_all add: power_int_minus roundHalfEven_def Let_def)
  have rg: "double (3409365655407821 / 2 ^ 44 - 51) = 2512164167142605 / 2 ^ 44"
    by (rule double_eqI [where e = "7" and n = "5024328334285210"])
       (simp_all add: power_int_minus roundHalfEven_def Let_def)
  show "double (double (20 / 100) * 255) = 51" by (simp only: q1 minV)
  show "double (double (76 / 100) * 255) = 3409365655407821 / 2 ^ 44" by (simp only: q2 maxV)
  show "heightRange 51 (3409365655407821 / 2 ^ 44) = 2512164167142605 / 2 ^ 44"
    unfolding heightRange_def rg by simp
qed

lemma height_value:
  "double (double (double (max 51 (min (3409365655407821 / 2 ^ 44) 100) - 51)
      / (2512164167142605 / 2 ^ 44)) * 255) = 6157265115545599 / 2 ^ 46"
proof -
  have c: "max 51 (min (3409365655407821 / 2 ^ 44) 100) = (100 :: real)" by simp
  have dv: "double (100 - 51) = 49"
    by (rule double_eqI [where e = "5" and n = "6896136929411072"])
       (simp_all add: power_int_minus roundHalfEven_def Let_def)
  have qq: "double (49 / (2512164167142605 / 2 ^ 44)) = 6181411253253621 / 2 ^ 54"
    by (rule double_eqI [where e = "- 2" and n = "6181411253253621"])
       (simp_all add: power_int_minus roundHalfEven_def Let_def)
  have rr: "double (6181411253253621 / 2 ^ 54 * 255) = 6157265115545599 / 2 ^ 46"
    by (rule double_eqI [where e = "6" and n = "6157265115545599"])
       (simp_all add: power_int_minus roundHalfEven_def Let_def)
  show ?thesis by (simp only: c dv qq rr)
qed

lemma generateHeight_example:
  "generateHeight \<lparr>width = 1, height = 1, data = [100, 100, 100, 255]\<rparr> 20 76 =
     Inr \<lparr>width = 1, height = 1, data = [87, 87, 87, 255]\<rparr>"
proof -
  let ?img = "\<lparr>width = 1, height = 1, data = [100, 100, 100, 255 :: 8 word]\<rparr>"
  have i: "isImageData ?img" by (simp add: isImageData_def)
  have r: "replicate (1 * 1 * 4) (0 :: 8 word) = [0, 0, 0, 0]" by (simp add: numeral_eq_Suc)
  have b: "ToUint8Clamp (6157265115545599 / 2 ^ 46) = 87"
    by (simp add: ToUint8Clamp_def Let_def)
  have "generateHeightLoop (double (double (20 / 100) * 255)) (double (double (76 / 100) * 255))
      (heightRange (double (double (20 / 100) * 255)) (double (double (76 / 100) * 255))) 0
      [100, 100, 100, 255] [0, 0, 0, 0] = [87, 87, 87, 255]"
    by (simp only: height_thresholds generateHeightLoop_one_pixel elem_numeral_examples
        height_value b)
  then show ?thesis
    using generateHeight_Inr [OF i, of 20 76] r by simp
qed

section \<open>applyDataBorder\<close>

lemma setP_length: "length (setP w h c X Y d) = length d"
  by (cases c) (simp add: setP_def Let_def)

lemma pixelAt_upd4:
  assumes "x < w" "x' < w" "idx w x y + 3 < length d"
  shows "pixelAt w (d[idx w x' y' := a, idx w x' y' + 1 := b, idx w x' y' + 2 := c,
                      idx w x' y' + 3 := e]) x y =
     (if x = x' \<and> y = y' then (a, b, c, e) else pixelAt w d x y)"
proof (cases "x = x' \<and> y = y'")
  case True
  then show ?thesis using assms(3) by (simp add: pixelAt_def)
next
  case False
  have ne: "idx w x y + k \<noteq> idx w x' y' + k'" if "k < 4" "k' < 4" for k k'
    using idx_eq_iff [OF assms(1,2) that, of y y'] False by blast
  have "d[idx w x' y' := a, idx w x' y' + 1 := b, idx w x' y' + 2 := c,
          idx w x' y' + 3 := e] ! (idx w x y + k) = d ! (idx w x y + k)" if "k < 4" for k
    using ne [OF that, of 0] ne [OF that, of 1] ne [OF that, of 2] ne [OF that, of 3]
    by simp
  from this [of 0] this [of 1] this [of 2] this [of 3] False
  show ?thesis by (auto simp add: pixelAt_def)
qed

lemma setP_pixel:
  assumes "x < w" "y < h" "length d = w * h * 4"
  shows "pixelAt w (setP w h c X Y d) x y =
     (if X = int x \<and> Y = int y then stored c else pixelAt w d x y)"
proof (cases "X < 0 \<or> X \<ge> int w \<or> Y < 0 \<or> Y \<ge> int h")
  case True
  then have "\<not> (X = int x \<and> Y = int y)" using assms(1,2) by auto
  with True show ?thesis by (cases c) (auto simp add: setP_def)
next
  case False
  then have X: "0 \<le> X" "X < int w" and Y: "0 \<le> Y" "Y < int h" by auto
  have i: "nat ((Y * int w + X) * 4) = idx w (nat X) (nat Y)"
    using X Y by (simp add: idx_def nat_add_distrib nat_mult_distrib)
  have b: "idx w x y + 3 < length d"
    using idx_bound [OF assms(1,2), of 3] assms(3) by simp
  have x': "nat X < w" using X by simp
  obtain red green blue alpha where c: "c = (red, green, blue, alpha)" by (cases c) auto
  have "setP w h c X Y d =
      d[idx w (nat X) (nat Y) := ToUint8Clamp red, idx w (nat X) (nat Y) + 1 := ToUint8Clamp green,
        idx w (nat X) (nat Y) + 2 := ToUint8Clamp blue,
        idx w (nat X) (nat Y) + 3 := ToUint8Clamp alpha]"
    unfolding setP_def c prod.case Let_def i using False by simp
  then have "pixelAt w (setP w h c X Y d) x y =
      (if x = nat X \<and> y = nat Y then stored c else pixelAt w d x y)"
    using pixelAt_upd4 [OF assms(1) x' b] by (simp add: stored_def c)
  moreover have "(x = nat X \<and> y = nat Y) = (X = int x \<and> Y = int y)"
    using X Y by auto
  ultimately show ?thesis by simp
qed

lemma borderRow_length: "length (borderRow w h c Y x d) = length d"
  by (induction w h c Y x d rule: borderRow.induct)
     (subst borderRow.simps, simp add: setP_length)

lemma borderCol_length: "length (borderCol w h c X y d) = length d"
  by (induction w h c X y d rule: borderCol.induct)
     (subst borderCol.simps, simp add: setP_length)

lemma borderRow_pixel:
  "x < w \<Longrightarrow> y < h \<Longrightarrow> length d = w * h * 4 \<Longrightarrow>
   pixelAt w (borderRow w h c Y x0 d) x y =
     (if Y = int y \<and> x0 \<le> x then stored c else pixelAt w d x y)"
proof (induction w h c Y x0 d rule: borderRow.induct)
  case (1 w h c Y x0 d)
  show ?case
  proof (cases "x0 < w")
    case False
    with 1(2) have "\<not> x0 \<le> x" by simp
    with False show ?thesis by (subst borderRow.simps) simp
  next
    case True
    have l: "length (setP w h c (int x0) Y d) = w * h * 4"
      using 1(4) by (simp add: setP_length)
    have "pixelAt w (borderRow w h c Y x0 d) x y =
        pixelAt w (borderRow w h c Y (x0 + 1) (setP w h c (int x0) Y d)) x y"
      using True by (subst borderRow.simps) simp
    also have "\<dots> = (if Y = int y \<and> x0 + 1 \<le> x then stored c
        else pixelAt w (setP w h c (int x0) Y d) x y)"
      by (rule 1(1) [OF True 1(2,3) l])
    also have "\<dots> = (if Y = int y \<and> x0 \<le> x then stored c else pixelAt w d x y)"
      using setP_pixel [OF 1(2,3,4), of c "int x0" Y] by auto
    finally show ?thesis .
  qed
qed

lemma borderCol_pixel:
  "x < w \<Longrightarrow> y < h \<Longrightarrow> length d = w * h * 4 \<Longrightarrow>
   pixelAt w (borderCol w h c X y0 d) x y =
     (if X = int x \<and> y0 \<le> y then stored c else pixelAt w d x y)"
proof (induction w h c X y0 d rule: borderCol.induct)
  case (1 w h c X y0 d)
  show ?case
  proof (cases "y0 < h")
    case False
    with 1(3) have "\<not> y0 \<le> y" by simp
    with False show ?thesis by (subst borderCol.simps) simp
  next
    case True
    have l: "length (setP w h c X (int y0) d) = w * h * 4"
      using 1(4) by (simp add: setP_length)
    have "pixelAt w (borderCol w h c X y0 d) x y =
        pixelAt w (borderCol w h c X (y0 + 1) (setP w h c X (int y0) d)) x y"
      using True by (subst borderCol.simps) simp
    also have "\<dots> = (if X = int x \<and> y0 + 1 \<le> y then stored c
        else pixelAt w (setP w h c X (int y0) d) x y)"
      by (rule 1(1) [OF True 1(2,3) l])
    also have "\<dots> = (if X = int x \<and> y0 \<le> y then stored c else pixelAt w d x y)"
      using setP_pixel [OF 1(2,3,4), of c X "int y0"] by auto
    finally show ?thesis .
  qed
qed

lemma borderTop_length: "length (borderTop w h c t y d) = length d"
  by (induction w h c t y d rule: borderTop.induct)
     (subst borderTop.simps, simp add: borderRow_length)

lemma borderBottom_length: "length (borderBottom w h c b y d) = length d"
  by (induction w h c b y d rule: borderBottom.induct)
     (subst borderBottom.simps, simp add: borderRow_length)

lemma borderLeft_length: "length (borderLeft w h c l x d) = length d"
  by (induction w h c l x d rule: borderLeft.induct)
     (subst borderLeft.simps, simp add: borderCol_length)

lemma borderRight_length: "length (borderRight w h c r x d) = length d"
  by (induction w h c r x d rule: borderRight.induct)
     (subst borderRight.simps, simp add: borderCol_length)

lemma borderTop_pixel:
  "x < w \<Longrightarrow> y < h \<Longrightarrow> length d = w * h * 4 \<Longrightarrow>
   pixelAt w (borderTop w h c t y0 d) x y =
     (if y0 \<le> y \<and> real y < t then stored c else pixelAt w d x y)"
proof (induction w h c t y0 d rule: borderTop.induct)
  case (1 w h c t y0 d)
  show ?case
  proof (cases "real y0 < t")
    case False
    then have n: "\<not> (y0 \<le> y \<and> real y < t)" by auto
    show ?thesis by (subst borderTop.simps) (simp only: n False if_False)
  next
    case True
    let ?d' = "borderRow w h c (int y0) 0 d"
    have l: "length ?d' = w * h * 4" using 1(4) by (simp add: borderRow_length)
    have "pixelAt w (borderTop w h c t y0 d) x y = pixelAt w (borderTop w h c t (y0 + 1) ?d') x y"
      using True by (subst borderTop.simps) simp
    also have "\<dots> = (if y0 + 1 \<le> y \<and> real y < t then stored c else pixelAt w ?d' x y)"
      by (rule 1(1) [OF True 1(2,3) l])
    also have "\<dots> = (if y0 \<le> y \<and> real y < t then stored c else pixelAt w d x y)"
      using borderRow_pixel [OF 1(2,3,4), of c "int y0" 0] True by auto
    finally show ?thesis .
  qed
qed

lemma borderBottom_pixel:
  "x < w \<Longrightarrow> y < h \<Longrightarrow> length d = w * h * 4 \<Longrightarrow>
   pixelAt w (borderBottom w h c b y0 d) x y =
     (if y0 \<le> h - 1 - y \<and> real (h - 1 - y) < b then stored c else pixelAt w d x y)"
proof (induction w h c b y0 d rule: borderBottom.induct)
  case (1 w h c b y0 d)
  show ?case
  proof (cases "real y0 < b")
    case False
    then have n: "\<not> (y0 \<le> h - 1 - y \<and> real (h - 1 - y) < b)" by auto
    show ?thesis by (subst borderBottom.simps) (simp only: n False if_False)
  next
    case True
    let ?d' = "borderRow w h c (int h - 1 - int y0) 0 d"
    have l: "length ?d' = w * h * 4" using 1(4) by (simp add: borderRow_length)
    have e: "(int h - 1 - int y0 = int y) = (y0 = h - 1 - y)" using 1(3) by auto
    have "pixelAt w (borderBottom w h c b y0 d) x y =
        pixelAt w (borderBottom w h c b (y0 + 1) ?d') x y"
      using True by (subst borderBottom.simps) simp
    also have "\<dots> = (if y0 + 1 \<le> h - 1 - y \<and> real (h - 1 - y) < b then stored c
        else pixelAt w ?d' x y)"
      by (rule 1(1) [OF True 1(2,3) l])
    also have "\<dots> = (if y0 \<le> h - 1 - y \<and> real (h - 1 - y) < b then stored c
        else pixelAt w d x y)"
      using borderRow_pixel [OF 1(2,3,4), of c "int h - 1 - int y0" 0] True e by auto
    finally show ?thesis .
  qed
qed

lemma borderLeft_pixel:
  "x < w \<Longrightarrow> y < h \<Longrightarrow> length d = w * h * 4 \<Longrightarrow>
   pixelAt w (borderLeft w h c l x0 d) x y =
     (if x0 \<le> x \<and> real x < l then stored c else pixelAt w d x y)"
proof (induction w h c l x0 d rule: borderLeft.induct)
  case (1 w h c l x0 d)
  show ?case
  proof (cases "real x0 < l")
    case False
    then have n: "\<not> (x0 \<le> x \<and> real x < l)" by auto
    show ?thesis by (subst borderLeft.simps) (simp only: n False if_False)
  next
    case True
    let ?d' = "borderCol w h c (int x0) 0 d"
    have len: "length ?d' = w * h * 4" using 1(4) by (simp add: borderCol_length)
    have "pixelAt w (borderLeft w h c l x0 d) x y = pixelAt w (borderLeft w h c l (x0 + 1) ?d') x y"
      using True by (subst borderLeft.simps) simp
    also have "\<dots> = (if x0 + 1 \<le> x \<and> real x < l then stored c else pixelAt w ?d' x y)"
      by (rule 1(1) [OF True 1(2,3) len])
    also have "\<dots> = (if x0 \<le> x \<and> real x < l then stored c else pixelAt w d x y)"
      using borderCol_pixel [OF 1(2,3,4), of c "int x0" 0] True by auto
    finally show ?thesis .
  qed
qed

lemma borderRight_pixel:
  "x < w \<Longrightarrow> y < h \<Longrightarrow> length d = w * h * 4 \<Longrightarrow>
   pixelAt w (borderRight w h c r x0 d) x y =
     (if x0 \<le> w - 1 - x \<and> real (w - 1 - x) < r then stored c else pixelAt w d x y)"
proof (induction w h c r x0 d rule: borderRight.induct)
  case (1 w h c r x0 d)
  show ?case
  proof (cases "real x0 < r")
    case False
    then have n: "\<not> (x0 \<le> w - 1 - x \<and> real (w - 1 - x) < r)" by auto
    show ?thesis by (subst borderRight.simps) (simp only: n False if_False)
  next
    case True
    let ?d' = "borderCol w h c (int w - 1 - int x0) 0 d"
    have len: "length ?d' = w * h * 4" using 1(4) by (simp add: borderCol_length)
    have e: "(int w - 1 - int x0 = int x) = (x0 = w - 1 - x)" using 1(2) by auto
    have "pixelAt w (borderRight w h c r x0 d) x y =
        pixelAt w (borderRight w h c r (x0 + 1) ?d') x y"
      using True by (subst borderRight.simps) simp
    also have "\<dots> = (if x0 + 1 \<le> w - 1 - x \<and> real (w - 1 - x) < r then stored c
        else pixelAt w ?d' x y)"
      by (rule 1(1) [OF True 1(2,3) len])
    also have "\<dots> = (if x0 \<le> w - 1 - x \<and> real (w - 1 - x) < r then stored c
        else pixelAt w d x y)"
      using borderCol_pixel [OF 1(2,3,4), of c "int w - 1 - int x0" 0] True e by auto
    finally show ?thesis .
  qed
qed

lemma applyDataBorder_width [simp]:
  "width (applyDataBorder img t r b l red green blue alpha) = width img"
  by (simp add: applyDataBorder_def Let_def)

lemma applyDataBorder_height [simp]:
  "height (applyDataBorder img t r b l red green blue alpha) = height img"
  by (simp add: applyDataBorder_def Let_def)

lemma applyDataBorder_length [simp]:
  "length (data (applyDataBorder img t r b l red green blue alpha)) = length (data img)"
  by (simp add: applyDataBorder_def Let_def borderTop_length borderBottom_length
      borderLeft_length borderRight_length)

lemma applyDataBorder_isImageData:
  "isImageData img \<Longrightarrow> isImageData (applyDataBorder img t r b l red green blue alpha)"
  by (simp add: isImageData_def)

lemma applyDataBorder_pixel:
  assumes "x < width img" "y < height img" "length (data img) = width img * height img * 4"
  shows "pixelAt (width img) (data (applyDataBorder img t r b l red green blue alpha)) x y =
     (if inBorder (width img) (height img) t r b l x y then stored (red, green, blue, alpha)
      else pixelAt (width img) (data img) x y)"
proof (cases "t \<le> 0 \<and> r \<le> 0 \<and> b \<le> 0 \<and> l \<le> 0")
  case True
  have "0 \<le> real y" "0 \<le> real (height img - 1 - y)" "0 \<le> real x"
    "0 \<le> real (width img - 1 - x)" by simp_all
  with True have "\<not> inBorder (width img) (height img) t r b l x y"
    unfolding inBorder_def by linarith
  with True show ?thesis by (simp add: applyDataBorder_def)
next
  case False
  let ?w = "width img" and ?h = "height img" and ?c = "(red, green, blue, alpha)"
  define d1 where "d1 = (if t > 0 then borderTop ?w ?h ?c t 0 (data img) else data img)"
  define d2 where "d2 = (if b > 0 then borderBottom ?w ?h ?c b 0 d1 else d1)"
  define d3 where "d3 = (if l > 0 then borderLeft ?w ?h ?c l 0 d2 else d2)"
  define d4 where "d4 = (if r > 0 then borderRight ?w ?h ?c r 0 d3 else d3)"
  have l1: "length d1 = ?w * ?h * 4" using assms(3) by (simp add: d1_def borderTop_length)
  have l2: "length d2 = ?w * ?h * 4" using l1 by (simp add: d2_def borderBottom_length)
  have l3: "length d3 = ?w * ?h * 4" using l2 by (simp add: d3_def borderLeft_length)
  have p1: "pixelAt ?w d1 x y = (if real y < t then stored ?c else pixelAt ?w (data img) x y)"
  proof (cases "t > 0")
    case True
    then show ?thesis
      using borderTop_pixel [OF assms, of ?c t 0] by (simp add: d1_def)
  next
    case False
    then have "\<not> real y < t" by simp
    with False show ?thesis by (simp add: d1_def)
  qed
  have p2: "pixelAt ?w d2 x y = (if real (?h - 1 - y) < b then stored ?c else pixelAt ?w d1 x y)"
  proof (cases "b > 0")
    case True
    then show ?thesis
      using borderBottom_pixel [OF assms(1,2) l1, of ?c b 0] by (simp add: d2_def)
  next
    case False
    then have "\<not> real (?h - 1 - y) < b" by simp
    with False show ?thesis by (simp add: d2_def)
  qed
  have p3: "pixelAt ?w d3 x y = (if real x < l then stored ?c else pixelAt ?w d2 x y)"
  proof (cases "l > 0")
    case True
    then show ?thesis
      using borderLeft_pixel [OF assms(1,2) l2, of ?c l 0] by (simp add: d3_def)
  next
    case False
    then have "\<not> real x < l" by simp
    with False show ?thesis by (simp add: d3_def)
  qed
  have p4: "pixelAt ?w d4 x y = (if real (?w - 1 - x) < r then stored ?c else pixelAt ?w d3 x y)"
  proof (cases "r > 0")
    case True
    then show ?thesis
      using borderRight_pixel [OF assms(1,2) l3, of ?c r 0] by (simp add: d4_def)
  next
    case False
    then have "\<not> real (?w - 1 - x) < r" by simp
    with False show ?thesis by (simp add: d4_def)
  qed
  have "data (applyDataBorder img t r b l red green blue alpha) = d4"
    using False by (simp add: applyDataBorder_def Let_def d1_def d2_def d3_def d4_def)
  then show ?thesis
    unfolding p4 p3 p2 p1 inBorder_def by (simp only: p4 p3 p2 p1) auto
qed

lemma applyDataBorder_greyOpaque:
  assumes "isImageData img" "greyOpaque img"
  shows "greyOpaque (applyDataBorder img t r b l 0 0 0 255)"
proof (rule greyOpaqueI)
  fix x y
  assume "x < width (applyDataBorder img t r b l 0 0 0 255)"
    "y < height (applyDataBorder img t r b l 0 0 0 255)"
  then have xy: "x < width img" "y < height img" by simp_all
  have len: "length (data img) = width img * height img * 4"
    using assms(1) by (simp add: isImageData_def)
  from greyOpaqueD [OF assms(2) xy] obtain g where
    g: "pixelAt (width img) (data img) x y = (g, g, g, 255)" ..
  show "\<exists>g. pixelAt (width (applyDataBorder img t r b l 0 0 0 255))
      (data (applyDataBorder img t r b l 0 0 0 255)) x y = (g, g, g, 255)"
    using applyDataBorder_pixel [OF xy len, of t r b l 0 0 0 255] g
    by (simp add: stored_def ToUint8Clamp_0 ToUint8Clamp_255)
qed

text \<open>
  Claim C10. Every pixel write of \<^verbatim>\<open>applyDataBorder\<close> goes through \<^verbatim>\<open>setP\<close>, which
  does nothing unless \<open>0 \<le> x < width\<close> and \<open>0 \<le> y < height\<close>, and whose four indices then
  lie inside the pixel array. So for arbitrary thicknesses \<open>t\<close>, \<open>r\<close>, \<open>b\<close>, \<open>l\<close> (also
  larger than the image) the result is an image of the same size, with the same number of
  bytes, in which every pixel of the border band holds the stored channel values and every
  pixel outside the four bands is unchanged.
\<close>

theorem applyDataBorder_in_bounds:
  assumes "isImageData img"
  shows "(\<forall>X Y d. X < 0 \<or> int (width img) \<le> X \<or> Y < 0 \<or> int (height img) \<le> Y \<longrightarrow>
            setP (width img) (height img) c X Y d = d)
     \<and> (\<forall>X Y. 0 \<le> X \<and> X < int (width img) \<and> 0 \<le> Y \<and> Y < int (height img) \<longrightarrow>
            nat ((Y * int (width img) + X) * 4) + 3 < length (data img))
     \<and> isImageData (applyDataBorder img t r b l red green blue alpha)
     \<and> width (applyDataBorder img t r b l red green blue alpha) = width img
     \<and> height (applyDataBorder img t r b l red green blue alpha) = height img
     \<and> length (data (applyDataBorder img t r b l red green blue alpha)) = length (data img)
     \<and> (\<forall>x<width img. \<forall>y<height img.
           pixelAt (width img) (data (applyDataBorder img t r b l red green blue alpha)) x y =
             (if inBorder (width img) (height img) t r b l x y
              then stored (red, green, blue, alpha)
              else pixelAt (width img) (data img) x y))"
proof -
  let ?w = "width img" and ?h = "height img"
  from assms have len: "length (data img) = ?w * ?h * 4" by (simp add: isImageData_def)
  have a: "setP ?w ?h c X Y d = d" if "X < 0 \<or> int ?w \<le> X \<or> Y < 0 \<or> int ?h \<le> Y" for X Y d
    using that by (cases c) (auto simp add: setP_def)
  have b: "nat ((Y * int ?w + X) * 4) + 3 < length (data img)"
    if "0 \<le> X \<and> X < int ?w \<and> 0 \<le> Y \<and> Y < int ?h" for X Y
  proof -
    have "nat ((Y * int ?w + X) * 4) = idx ?w (nat X) (nat Y)"
      using that by (simp add: idx_def nat_add_distrib nat_mult_distrib)
    moreover have "idx ?w (nat X) (nat Y) + 3 < ?w * ?h * 4"
      using that by (intro idx_bound) auto
    ultimately show ?thesis using len by simp
  qed
  have p: "pixelAt ?w (data (applyDataBorder img t r b l red green blue alpha)) x y =
      (if inBorder ?w ?h t r b l x y then stored (red, green, blue, alpha)
       else pixelAt ?w (data img) x y)" if "x < ?w" "y < ?h" for x y
    using that len by (rule applyDataBorder_pixel)
  show ?thesis
    using a b p applyDataBorder_isImageData [OF assms] by simp
qed

theorem applyDataBorder_in_bounds_witness:
  "isImageData \<lparr>width = 2, height = 1, data = [9, 9, 9, 255, 9, 9, 9, 255]\<rparr>
   \<and> setP 2 1 (0, 0, 0, 255) 5 0 [9, 9, 9, 255, 9, 9, 9, 255] = [9, 9, 9, 255, 9, 9, 9, 255]
   \<and> pixelAt 2 (data (applyDataBorder
         \<lparr>width = 2, height = 1, data = [9, 9, 9, 255, 9, 9, 9, 255]\<rparr> 0 0 0 1 0 0 0 255)) 0 0
       = (0, 0, 0, 255)
   \<and> pixelAt 2 (data (applyDataBorder
         \<lparr>width = 2, height = 1, data = [9, 9, 9, 255, 9, 9, 9, 255]\<rparr> 0 0 0 1 0 0 0 255)) 1 0
       = (9, 9, 9, 255)
   \<and> length (data (applyDataBorder
         \<lparr>width = 2, height = 1, data = [9, 9, 9, 255, 9, 9, 9, 255]\<rparr> 7 0 0 0 0 0 0 255)) = 8
   \<and> pixelAt 2 (data (applyDataBorder
         \<lparr>width = 2, height = 1, data = [9, 9, 9, 255, 9, 9, 9, 255]\<rparr> 7 0 0 0 0 0 0 255)) 1 0
       = (0, 0, 0, 255)"
proof -
  let ?img = "\<lparr>width = 2, height = 1, data = [9, 9, 9, 255, 9, 9, 9, 255 :: 8 word]\<rparr>"
  have i: "isImageData ?img" by (simp add: isImageData_def)
  have s: "stored (0, 0, 0, 255) = (0, 0, 0, 255)"
    by (simp add: stored_def ToUint8Clamp_0 ToUint8Clamp_255)
  have o: "pixelAt 2 [9, 9, 9, 255, 9, 9, 9, 255] (Suc 0) 0 = (9, 9, 9, 255)"
    by (simp add: pixelAt_def idx_def)
  show ?thesis
    using applyDataBorder_in_bounds [OF i, of "(0, 0, 0, 255)" 0 0 0 1 0 0 0 255]
      applyDataBorder_in_bounds [OF i, of "(0, 0, 0, 255)" 7 0 0 0 0 0 0 255] i
    by (simp add: inBorder_def s o)
qed

section \<open>The border loops with the code's counter\<close>

text \<open>
  With a thickness of at most \<open>2 ^ 53\<close> the loop that counts in doubles returns what
  \<open>borderTop\<close>, \<open>borderBottom\<close>, \<open>borderLeft\<close> and \<open>borderRight\<close> return; with a larger one
  it does not return at all.
\<close>

lemma counter_next:
  assumes "n \<le> (2 :: nat) ^ 53"
  shows "\<exists>n'. double (real n + 1) = real n' \<and> n' \<le> 2 ^ 53"
proof (cases "n = 2 ^ 53")
  case True
  have "double (real n + 1) = real ((2 :: nat) ^ 53)"
    unfolding True using counter_stalls by simp
  then show ?thesis by blast
next
  case False
  with assms have "n + 1 \<le> 2 ^ 53" by simp
  then have "real (n + 1) \<le> real ((2 :: nat) ^ 53)" by (simp only: of_nat_le_iff)
  then have "real n + 1 \<le> 2 ^ 53" by simp
  from counter_exact [OF this] have "double (real n + 1) = real (n + 1)" by simp
  with \<open>n + 1 \<le> 2 ^ 53\<close> show ?thesis by blast
qed

lemma forLoop_no_result:
  assumes "forLoop t body y s = Some r"
  shows "\<not> (2 ^ 53 < t \<and> (\<exists>n. y = real n \<and> n \<le> 2 ^ 53))"
proof (rule forLoop.raw_induct
    [where P = "\<lambda>t body y s r. \<not> (2 ^ 53 < t \<and> (\<exists>n. y = real n \<and> n \<le> 2 ^ 53))", OF _ assms])
  fix f :: "real \<Rightarrow> (real \<Rightarrow> 'a \<Rightarrow> 'a) \<Rightarrow> real \<Rightarrow> 'a \<Rightarrow> 'a option"
  fix t body y s r
  assume ih: "\<And>t body y s r. f t body y s = Some r \<Longrightarrow>
      \<not> (2 ^ 53 < t \<and> (\<exists>n. y = real n \<and> n \<le> 2 ^ 53))"
  assume step: "(if y < t then f t body (double (y + 1)) (body y s) else Some s) = Some r"
  show "\<not> (2 ^ 53 < t \<and> (\<exists>n. y = real n \<and> n \<le> 2 ^ 53))"
  proof
    assume a: "2 ^ 53 < t \<and> (\<exists>n. y = real n \<and> n \<le> 2 ^ 53)"
    then obtain n where n: "y = real n" "n \<le> 2 ^ 53" by blast
    from n(2) have "real n \<le> real ((2 :: nat) ^ 53)" by (simp only: of_nat_le_iff)
    then have "y \<le> 2 ^ 53" using n(1) by simp
    with a have lt: "y < t" by simp
    from counter_next [OF n(2)] obtain n' where
      n': "double (y + 1) = real n'" "n' \<le> 2 ^ 53" unfolding n(1) by blast
    from step lt have "f t body (double (y + 1)) (body y s) = Some r" by simp
    from ih [OF this] a n' show False by blast
  qed
qed

lemma forLoop_stalls:
  assumes "2 ^ 53 < t"
  shows "forLoop t body 0 s = None"
proof (cases "forLoop t body 0 s")
  case (Some r)
  from forLoop_no_result [OF this] assms have "\<not> (\<exists>n. (0 :: real) = real n \<and> n \<le> 2 ^ 53)"
    by simp
  moreover have "(0 :: real) = real (0 :: nat) \<and> (0 :: nat) \<le> 2 ^ 53" by simp
  ultimately show ?thesis by blast
qed simp

lemma counter_step:
  assumes "real y < t" "t \<le> 2 ^ 53"
  shows "double (real y + 1) = real (y + 1)"
proof -
  have "real y < 2 ^ 53" using assms by simp
  then have "real y < real ((2 :: nat) ^ 53)" by simp
  then have "y < 2 ^ 53" by (simp only: of_nat_less_iff)
  then have "y + 1 \<le> 2 ^ 53" by simp
  then have "real (y + 1) \<le> real ((2 :: nat) ^ 53)" by (simp only: of_nat_le_iff)
  then have "real y + 1 \<le> 2 ^ 53" by simp
  from counter_exact [OF this] show ?thesis by simp
qed

lemma forLoop_borderTop:
  assumes "t \<le> 2 ^ 53"
  shows "forLoop t (\<lambda>y. borderRow w h c \<lfloor>y\<rfloor> 0) (real y) d = Some (borderTop w h c t y d)"
  using assms
proof (induction w h c t y d rule: borderTop.induct)
  case (1 w h c t y d)
  show ?case
  proof (cases "real y < t")
    case True
    have "forLoop t (\<lambda>y. borderRow w h c \<lfloor>y\<rfloor> 0) (real y) d =
        forLoop t (\<lambda>y. borderRow w h c \<lfloor>y\<rfloor> 0) (real (y + 1)) (borderRow w h c (int y) 0 d)"
      using True by (subst forLoop.simps) (simp add: counter_step [OF True 1(2)])
    also have "\<dots> = Some (borderTop w h c t (y + 1) (borderRow w h c (int y) 0 d))"
      by (rule 1(1) [OF True 1(2)])
    also have "\<dots> = Some (borderTop w h c t y d)"
      using True by (subst (2) borderTop.simps) simp
    finally show ?thesis .
  next
    case False
    then show ?thesis
      by (subst forLoop.simps, subst borderTop.simps) simp
  qed
qed


lemma forLoop_borderBottom:
  assumes "b \<le> 2 ^ 53"
  shows "forLoop b (\<lambda>y. borderRow w h c (int h - 1 - \<lfloor>y\<rfloor>) 0) (real y) d =
     Some (borderBottom w h c b y d)"
  using assms
proof (induction w h c b y d rule: borderBottom.induct)
  case (1 w h c b y d)
  show ?case
  proof (cases "real y < b")
    case True
    have "forLoop b (\<lambda>y. borderRow w h c (int h - 1 - \<lfloor>y\<rfloor>) 0) (real y) d =
        forLoop b (\<lambda>y. borderRow w h c (int h - 1 - \<lfloor>y\<rfloor>) 0) (real (y + 1))
          (borderRow w h c (int h - 1 - int y) 0 d)"
      using True by (subst forLoop.simps) (simp add: counter_step [OF True 1(2)])
    also have "\<dots> = Some (borderBottom w h c b (y + 1) (borderRow w h c (int h - 1 - int y) 0 d))"
      by (rule 1(1) [OF True 1(2)])
    also have "\<dots> = Some (borderBottom w h c b y d)"
      using True by (subst (2) borderBottom.simps) simp
    finally show ?thesis .
  next
    case False
    then show ?thesis
      by (subst forLoop.simps, subst borderBottom.simps) simp
  qed
qed

lemma forLoop_borderLeft:
  assumes "l \<le> 2 ^ 53"
  shows "forLoop l (\<lambda>x. borderCol w h c \<lfloor>x\<rfloor> 0) (real x) d = Some (borderLeft w h c l x d)"
  using assms
proof (induction w h c l x d rule: borderLeft.induct)
  case (1 w h c l x d)
  show ?case
  proof (cases "real x < l")
    case True
    have "forLoop l (\<lambda>x. borderCol w h c \<lfloor>x\<rfloor> 0) (real x) d =
        forLoop l (\<lambda>x. borderCol w h c \<lfloor>x\<rfloor> 0) (real (x + 1)) (borderCol w h c (int x) 0 d)"
      using True by (subst forLoop.simps) (simp add: counter_step [OF True 1(2)])
    also have "\<dots> = Some (borderLeft w h c l (x + 1) (borderCol w h c (int x) 0 d))"
      by (rule 1(1) [OF True 1(2)])
    also have "\<dots> = Some (borderLeft w h c l x d)"
      using True by (subst (2) borderLeft.simps) simp
    finally show ?thesis .
  next
    case False
    then show ?thesis
      by (subst forLoop.simps, subst borderLeft.simps) simp
  qed
qed

lemma forLoop_borderRight:
  assumes "r \<le> 2 ^ 53"
  shows "forLoop r (\<lambda>x. borderCol w h c (int w - 1 - \<lfloor>x\<rfloor>) 0) (real x) d =
     Some (borderRight w h c r x d)"
  using assms
proof (induction w h c r x d rule: borderRight.induct)
  case (1 w h c r x d)
  show ?case
  proof (cases "real x < r")
    case True
    have "forLoop r (\<lambda>x. borderCol w h c (int w - 1 - \<lfloor>x\<rfloor>) 0) (real x) d =
        forLoop r (\<lambda>x. borderCol w h c (int w - 1 - \<lfloor>x\<rfloor>) 0) (real (x + 1))
          (borderCol w h c (int w - 1 - int x) 0 d)"
      using True by (subst forLoop.simps) (simp add: counter_step [OF True 1(2)])
    also have "\<dots> = Some (borderRight w h c r (x + 1) (borderCol w h c (int w - 1 - int x) 0 d))"
      by (rule 1(1) [OF True 1(2)])
    also have "\<dots> = Some (borderRight w h c r x d)"
      using True by (subst (2) borderRight.simps) simp
    finally show ?thesis .
  next
    case False
    then show ?thesis
      by (subst forLoop.simps, subst borderRight.simps) simp
  qed
qed

section \<open>generateNormal\<close>

lemma normalStore_length: "length (normalStore p i dst) = length dst"
  by (simp add: normalStore_def split: option.splits prod.splits)

lemma generateNormalRow_length: "length (generateNormalRow src w h s dx y x dst) = length dst"
  by (induction src w h s dx y x dst rule: generateNormalRow.induct)
     (subst generateNormalRow.simps, simp add: normalStore_length)

lemma generateNormalRows_length: "length (generateNormalRows src w h s dx y dst) = length dst"
  by (induction src w h s dx y dst rule: generateNormalRows.induct)
     (subst generateNormalRows.simps, simp add: generateNormalRow_length)

text \<open>The bytes that the stores of \<open>normalStore\<close> leave in a pixel.\<close>

lemma normalStore_pixel:
  assumes "x < w" "x' < w" "idx w x y + 3 < length dst"
  shows "pixelAt w (normalStore p (idx w x' y') dst) x y =
     (if x = x' \<and> y = y'
      then (case p of Some (a, b, c) \<Rightarrow> (ToUint8Clamp a, ToUint8Clamp b, ToUint8Clamp c, 255)
            | None \<Rightarrow> (0, 0, 0, 255))
      else pixelAt w dst x y)"
proof (cases p)
  case None
  then show ?thesis by (simp only: normalStore_def option.case pixelAt_upd4 [OF assms])
next
  case (Some q)
  obtain a b c where "q = (a, b, c)" by (cases q) auto
  with Some show ?thesis
    by (simp only: normalStore_def option.case prod.case pixelAt_upd4 [OF assms])
qed

lemma generateNormalRow_pixel:
  "x < w \<Longrightarrow> y < h \<Longrightarrow> length dst = w * h * 4 \<Longrightarrow>
   pixelAt w (generateNormalRow src w h s dx y' x0 dst) x y =
     (if y = y' \<and> x0 \<le> x
      then (case normalPixel src w h s dx x y of
              Some (a, b, c) \<Rightarrow> (ToUint8Clamp a, ToUint8Clamp b, ToUint8Clamp c, 255)
            | None \<Rightarrow> (0, 0, 0, 255))
      else pixelAt w dst x y)"
proof (induction src w h s dx y' x0 dst rule: generateNormalRow.induct)
  case (1 src w h s dx y' x0 dst)
  show ?case
  proof (cases "x0 < w")
    case False
    with 1(2) have n: "\<not> (y = y' \<and> x0 \<le> x)" by simp
    show ?thesis by (subst generateNormalRow.simps) (simp only: n False if_False)
  next
    case True
    let ?d' = "normalStore (normalPixel src w h s dx x0 y') (idx w x0 y') dst"
    have l: "length ?d' = w * h * 4" using 1(4) by (simp add: normalStore_length)
    have b: "idx w x y + 3 < length dst"
      using idx_bound [OF 1(2,3), of 3] 1(4) by simp
    have "pixelAt w (generateNormalRow src w h s dx y' x0 dst) x y =
        pixelAt w (generateNormalRow src w h s dx y' (x0 + 1) ?d') x y"
      using True by (subst generateNormalRow.simps) simp
    also have "\<dots> = (if y = y' \<and> x0 + 1 \<le> x
        then (case normalPixel src w h s dx x y of
                Some (a, b, c) \<Rightarrow> (ToUint8Clamp a, ToUint8Clamp b, ToUint8Clamp c, 255)
              | None \<Rightarrow> (0, 0, 0, 255))
        else pixelAt w ?d' x y)"
      by (rule 1(1) [OF True 1(2,3) l])
    also have "\<dots> = (if y = y' \<and> x0 \<le> x
        then (case normalPixel src w h s dx x y of
                Some (a, b, c) \<Rightarrow> (ToUint8Clamp a, ToUint8Clamp b, ToUint8Clamp c, 255)
              | None \<Rightarrow> (0, 0, 0, 255))
        else pixelAt w dst x y)"
      using normalStore_pixel [OF 1(2) True b, of "normalPixel src w h s dx x0 y'" y'] by auto
    finally show ?thesis .
  qed
qed

lemma generateNormalRows_pixel:
  "x < w \<Longrightarrow> y < h \<Longrightarrow> length dst = w * h * 4 \<Longrightarrow>
   pixelAt w (generateNormalRows src w h s dx y0 dst) x y =
     (if y0 \<le> y
      then (case normalPixel src w h s dx x y of
              Some (a, b, c) \<Rightarrow> (ToUint8Clamp a, ToUint8Clamp b, ToUint8Clamp c, 255)
            | None \<Rightarrow> (0, 0, 0, 255))
      else pixelAt w dst x y)"
proof (induction src w h s dx y0 dst rule: generateNormalRows.induct)
  case (1 src w h s dx y0 dst)
  show ?case
  proof (cases "y0 < h")
    case False
    with 1(3) have n: "\<not> y0 \<le> y" by simp
    show ?thesis by (subst generateNormalRows.simps) (simp only: n False if_False)
  next
    case True
    let ?d' = "generateNormalRow src w h s dx y0 0 dst"
    have l: "length ?d' = w * h * 4" using 1(4) by (simp add: generateNormalRow_length)
    have "pixelAt w (generateNormalRows src w h s dx y0 dst) x y =
        pixelAt w (generateNormalRows src w h s dx (y0 + 1) ?d') x y"
      using True by (subst generateNormalRows.simps) simp
    also have "\<dots> = (if y0 + 1 \<le> y
        then (case normalPixel src w h s dx x y of
                Some (a, b, c) \<Rightarrow> (ToUint8Clamp a, ToUint8Clamp b, ToUint8Clamp c, 255)
              | None \<Rightarrow> (0, 0, 0, 255))
        else pixelAt w ?d' x y)"
      by (rule 1(1) [OF True 1(2,3) l])
    also have "\<dots> = (if y0 \<le> y
        then (case normalPixel src w h s dx x y of
                Some (a, b, c) \<Rightarrow> (ToUint8Clamp a, ToUint8Clamp b, ToUint8Clamp c, 255)
              | None \<Rightarrow> (0, 0, 0, 255))
        else pixelAt w dst x y)"
      using generateNormalRow_pixel [OF 1(2,3,4), of src s dx y0 0] by auto
    finally show ?thesis .
  qed
qed

lemma generateNormal_Inr:
  assumes "0 < w" "0 < h"
  shows "generateNormal hm w h s dx =
     Inr \<lparr>width = w, height = h,
          data = generateNormalRows (data hm) w h s dx 0 (replicate (w * h * 4) 0)\<rparr>"
  using assms by (simp add: generateNormal_def createBuffer_None bindE_def)

lemma srcAt_flat:
  assumes "length src = w * h * 4" "\<forall>x<w. \<forall>y<h. src ! idx w x y = c" "x < w" "y < h"
  shows "srcAt src (idx w x y) = Some (elem c)"
proof -
  have "idx w x y < length src"
    using idx_bound [OF assms(3,4), of 0] assms(1) by simp
  then show ?thesis using assms(2,3,4) by (simp add: srcAt_def)
qed

text \<open>
  The blue channel of a flat field: \<open>dZ\<close> is between 42 and 510, the length is \<open>dZ\<close> up
  to three roundings, and four more roundings leave the product above 254.5.
\<close>

lemma normal_z_flat:
  assumes D: "42 \<le> D" "D \<le> 510"
  defines "len \<equiv> double (sqrt (double (double (D * D))))"
  shows "0 < len" "509 / 2 < double (double (double (double (D / len) * (1 / 2)) + 1 / 2) * 255)"
proof -
  let ?u = "1 + 1 / 1000000 :: real"
  let ?l = "1 - 1 / 1000000 :: real"
  have Dp: "0 < D" using D by simp
  have A: "1 \<le> D * D"
  proof -
    have "1 * 1 \<le> D * D" using D by (intro mult_mono) simp_all
    then show ?thesis by simp
  qed
  define a1 where "a1 = double (D * D)"
  define a2 where "a2 = double a1"
  have a1: "(D * D) * ?l \<le> a1" "a1 \<le> (D * D) * ?u"
    unfolding a1_def using A by (intro double_lower double_upper; simp)+
  have a1': "1 / 4 \<le> a1" using a1(1) A by simp
  have a2: "a1 * ?l \<le> a2" "a2 \<le> a1 * ?u"
    unfolding a2_def using a1' by (intro double_lower double_upper; simp)+
  have a2u: "a2 \<le> (D * ?u) * (D * ?u)"
  proof -
    have "a1 * ?u \<le> ((D * D) * ?u) * ?u" using a1(2) by (intro mult_right_mono) simp_all
    with a2(2) show ?thesis by (simp add: algebra_simps)
  qed
  have a2l: "1 / 4 \<le> a2"
  proof -
    have "1 / 2 \<le> a1" using a1(1) A by simp
    then have "1 / 2 * ?l \<le> a1 * ?l" by (intro mult_right_mono) simp_all
    with a2(1) show ?thesis by simp
  qed
  define r where "r = sqrt a2"
  have ru: "r \<le> D * ?u"
  proof -
    define e where "e = D * ?u"
    have e: "0 \<le> e" using Dp by (simp add: e_def)
    have "a2 \<le> e * e" using a2u by (simp only: e_def)
    then have "sqrt a2 \<le> sqrt (e * e)" by (simp only: real_sqrt_le_iff)
    also have "\<dots> = e" using e by (simp only: real_sqrt_abs2 abs_of_nonneg)
    finally show ?thesis by (simp only: r_def e_def)
  qed
  have rl: "1 / 2 \<le> r"
  proof -
    have "sqrt (1 / 4) \<le> sqrt a2" using a2l by simp
    moreover have "sqrt (1 / 4) = (1 / 2 :: real)"
      using real_sqrt_abs2 [of "1 / 2"] by (simp add: power2_eq_square)
    ultimately show ?thesis by (simp add: r_def)
  qed
  have len: "len = double r" by (simp add: len_def a1_def a2_def r_def)
  have lenl: "1 / 2 * ?l \<le> len" unfolding len using rl by (intro double_lower) simp_all
  have lenu: "len \<le> (D * ?u) * ?u" unfolding len using rl ru by (intro double_upper) simp_all
  show lp: "0 < len" using lenl by simp
  have q: "999997 / 1000000 \<le> D / len"
  proof -
    have "999997 / 1000000 * len \<le> 999997 / 1000000 * ((D * ?u) * ?u)"
      using lenu by (intro mult_left_mono) simp_all
    also have "\<dots> \<le> D" using Dp by simp
    finally show ?thesis using lp by (simp add: pos_le_divide_eq)
  qed
  define r1 where "r1 = double (D / len)"
  have r1: "999996 / 1000000 \<le> r1"
  proof -
    have "999997 / 1000000 * ?l \<le> r1" unfolding r1_def using q by (intro double_lower) simp_all
    then show ?thesis by simp
  qed
  define r2 where "r2 = double (r1 * (1 / 2))"
  have r2: "499997 / 1000000 \<le> r2"
  proof -
    have "499998 / 1000000 \<le> r1 * (1 / 2)" using r1 by simp
    then have "499998 / 1000000 * ?l \<le> r2" unfolding r2_def by (intro double_lower) simp_all
    then show ?thesis by simp
  qed
  define r3 where "r3 = double (r2 + 1 / 2)"
  have r3: "999996 / 1000000 \<le> r3"
  proof -
    have "999997 / 1000000 \<le> r2 + 1 / 2" using r2 by simp
    then have "999997 / 1000000 * ?l \<le> r3" unfolding r3_def by (intro double_lower) simp_all
    then show ?thesis by simp
  qed
  have "2549 / 10 \<le> r3 * 255" using r3 by simp
  then have "2549 / 10 * ?l \<le> double (r3 * 255)" by (intro double_lower) simp_all
  then have "509 / 2 < double (r3 * 255)" by simp
  then show "509 / 2 < double (double (double (double (D / len) * (1 / 2)) + 1 / 2) * 255)"
    by (simp only: r3_def r2_def r1_def)
qed

lemma normalPixel_flat:
  assumes "length src = w * h * 4" "\<forall>x<w. \<forall>y<h. src ! idx w x y = c" "x < w" "y < h"
    and s: "0.5 \<le> s" "s \<le> 6.0"
  shows "\<exists>z. normalPixel src w h s dx x y = Some (255 / 2, 255 / 2, z) \<and> 509 / 2 < z"
proof -
  let ?x1 = "nat (max 0 (int x - 1))" and ?x2 = "nat (min (int w - 1) (int x + 1))"
  let ?y1 = "nat (max 0 (int y - 1))" and ?y2 = "nat (min (int h - 1) (int y + 1))"
  have x: "?x1 < w" "?x2 < w" using assms(3) by auto
  have y: "?y1 < h" "?y2 < h" using assms(4) by auto
  note rd = srcAt_flat [OF assms(1,2)]
  have reads:
    "srcAt src (idx w ?x2 ?y1) = Some (elem c)" "srcAt src (idx w ?x1 ?y1) = Some (elem c)"
    "srcAt src (idx w ?x1 y) = Some (elem c)" "srcAt src (idx w ?x2 y) = Some (elem c)"
    "srcAt src (idx w ?x1 ?y2) = Some (elem c)" "srcAt src (idx w ?x2 ?y2) = Some (elem c)"
    "srcAt src (idx w x ?y1) = Some (elem c)" "srcAt src (idx w x ?y2) = Some (elem c)"
    using x y assms(3,4) by (simp_all only: rd)
  define D where "D = double (255 / max (double 0.1) s)"
  define len where "len = double (sqrt (double (double (D * D))))"
  have m: "max (double 0.1) s = s" using s by (simp add: double_tenth max_def)
  have q: "(85 / 2 :: real) \<le> 255 / s" "255 / s \<le> 510"
    using s by (simp_all add: field_simps)
  have a: "\<bar>255 / s\<bar> < 2 ^ 53" using q by simp
  have "real_of_int 42 \<le> 255 / s" using q(1) by simp
  from double_ge_of_int [OF a this] have Dl: "42 \<le> D" by (simp add: D_def m)
  have "255 / s \<le> real_of_int 510" using q(2) by simp
  from double_le_of_int [OF a this] have Du: "D \<le> 510" by (simp add: D_def m)
  note z = normal_z_flat [OF Dl Du, folded len_def]
  have l0: "len \<noteq> 0" using z(1) by simp
  define Z where "Z = double (double (double (double (D / len) * (1 / 2)) + 1 / 2) * 255)"
  have "normalPixel src w h s dx x y = Some (255 / 2, 255 / 2, Z)"
    unfolding normalPixel_def Let_def reads
    by (simp add: D_def [symmetric] len_def [symmetric] l0 double_one_half double_255_halves
        Z_def)
  with z(2) show ?thesis unfolding Z_def by blast
qed


text \<open>
  Claim C1. For every perfectly flat height field (the height, which the code reads from
  the red channel, is the same constant \<open>c\<close> at every pixel) and every \<open>normalStrength\<close>
  in \<open>[0.5, 6.0]\<close>, \<^verbatim>\<open>generateNormal\<close> stores \<open>(R, G, B) = (128, 128, 255)\<close> (alpha 255)
  at every pixel, under the DX convention and under the GL convention alike.
\<close>

theorem generateNormal_flat:
  assumes "isImageData hm"
    and "\<forall>x<width hm. \<forall>y<height hm. data hm ! idx (width hm) x y = c"
    and "0.5 \<le> s" "s \<le> 6.0"
  shows "\<exists>img. generateNormal hm (width hm) (height hm) s isDX = Inr img \<and> isImageData img
      \<and> width img = width hm \<and> height img = height hm
      \<and> (\<forall>x<width hm. \<forall>y<height hm. pixelAt (width hm) (data img) x y = (128, 128, 255, 255))"
proof -
  let ?w = "width hm" and ?h = "height hm"
  let ?img = "\<lparr>width = ?w, height = ?h,
      data = generateNormalRows (data hm) ?w ?h s isDX 0 (replicate (?w * ?h * 4) 0)\<rparr>"
  from assms(1) have w: "0 < ?w" and h: "0 < ?h" and len: "length (data hm) = ?w * ?h * 4"
    by (simp_all add: isImageData_def)
  have "generateNormal hm ?w ?h s isDX = Inr ?img" using w h by (rule generateNormal_Inr)
  moreover have "isImageData ?img"
    using w h by (simp add: isImageData_def generateNormalRows_length)
  moreover have "pixelAt ?w (data ?img) x y = (128, 128, 255, 255)"
    if "x < ?w" "y < ?h" for x y
  proof -
    have "pixelAt ?w (data ?img) x y =
        (case normalPixel (data hm) ?w ?h s isDX x y of
           Some (a, b, c) \<Rightarrow> (ToUint8Clamp a, ToUint8Clamp b, ToUint8Clamp c, 255)
         | None \<Rightarrow> (0, 0, 0, 255))"
      using generateNormalRows_pixel [OF that, of "replicate (?w * ?h * 4) 0" "data hm" s isDX 0]
      by simp
    also have "\<dots> = (128, 128, 255, 255)"
    proof -
      from normalPixel_flat [OF len assms(2) that assms(3,4), of isDX] obtain z where
        z: "normalPixel (data hm) ?w ?h s isDX x y = Some (255 / 2, 255 / 2, z)" "509 / 2 < z"
        by blast
      show ?thesis
        by (simp add: z(1) ToUint8Clamp_half ToUint8Clamp_top [OF z(2)])
    qed
    finally show ?thesis .
  qed
  ultimately show ?thesis by (intro exI [of _ ?img]) simp
qed

theorem generateNormal_flat_witness:
  "isImageData \<lparr>width = 2, height = 1, data = [77, 77, 77, 255, 77, 77, 77, 255]\<rparr>
   \<and> (\<exists>img. generateNormal \<lparr>width = 2, height = 1, data = [77, 77, 77, 255, 77, 77, 77, 255]\<rparr>
               2 1 1.5 True = Inr img
         \<and> pixelAt 2 (data img) 1 0 = (128, 128, 255, 255))
   \<and> (\<exists>img. generateNormal \<lparr>width = 2, height = 1, data = [77, 77, 77, 255, 77, 77, 77, 255]\<rparr>
               2 1 1.5 False = Inr img
         \<and> pixelAt 2 (data img) 1 0 = (128, 128, 255, 255))"
proof -
  let ?hm = "\<lparr>width = 2, height = 1, data = [77, 77, 77, 255, 77, 77, 77, 255 :: 8 word]\<rparr>"
  have i: "isImageData ?hm" by (simp add: isImageData_def)
  have f: "\<forall>x<width ?hm. \<forall>y<height ?hm. data ?hm ! idx (width ?hm) x y = 77"
  proof (intro allI impI)
    fix x y :: nat assume "x < width ?hm" "y < height ?hm"
    then have "y = 0" "x = 0 \<or> x = 1" by auto
    then show "data ?hm ! idx (width ?hm) x y = 77" by (auto simp add: idx_def)
  qed
  have s: "(0.5 :: real) \<le> 1.5" "(1.5 :: real) \<le> 6.0" by simp_all
  show ?thesis
    using generateNormal_flat [OF i f s, of True] generateNormal_flat [OF i f s, of False] i
    by auto
qed

section \<open>toGrayscale\<close>

lemma toGrayscale_Inr:
  assumes "isImageData img"
  shows "toGrayscale img = Inr (img\<lparr>data := toGrayscaleLoop 0 (data img)\<rparr>)"
  using assms by (simp add: toGrayscale_def createBuffer_Some bindE_def)

text \<open>
  One rounding, computed: the pixel \<open>(0, 80, 110)\<close>. In exact arithmetic the luminance
  would be 59.5; the rounded products and sums give a value just below it, and 59 is
  stored.
\<close>

lemma toGrayscaleLoop_one_pixel:
  "toGrayscaleLoop 0 [r, g, b, a] =
     [ToUint8Clamp (double (double (double (double 0.299 * elem r) + double (double 0.587 * elem g))
                      + double (double 0.114 * elem b))),
      ToUint8Clamp (double (double (double (double 0.299 * elem r) + double (double 0.587 * elem g))
                      + double (double 0.114 * elem b))),
      ToUint8Clamp (double (double (double (double 0.299 * elem r) + double (double 0.587 * elem g))
                      + double (double 0.114 * elem b))),
      255]"
  by (subst toGrayscaleLoop.simps, subst toGrayscaleLoop.simps)
     (simp add: Let_def storeNumber_def)

lemma gray_avg:
  "double (double (double (double 0.299 * 0) + double (double 0.587 * 80))
      + double (double 0.114 * 110)) = 8373880557142015 / 2 ^ 47"
proof -
  have c587: "double 0.587 = 2643612981266481 / 2 ^ 52"
    by (rule double_eqI [where e = "- 1" and n = "5287225962532962"])
       (simp_all add: power_int_minus roundHalfEven_def Let_def)
  have c114: "double 0.114 = 8214565720323785 / 2 ^ 56"
    by (rule double_eqI [where e = "- 4" and n = "8214565720323785"])
       (simp_all add: power_int_minus roundHalfEven_def Let_def)
  have p2: "double (2643612981266481 / 2 ^ 52 * 80) = 3304516226583101 / 2 ^ 46"
    by (rule double_eqI [where e = "5" and n = "6609032453166202"])
       (simp_all add: power_int_minus roundHalfEven_def Let_def)
  have p3: "double (8214565720323785 / 2 ^ 56 * 110) = 7059392415903253 / 2 ^ 49"
    by (rule double_eqI [where e = "3" and n = "7059392415903253"])
       (simp_all add: power_int_minus roundHalfEven_def Let_def)
  have s1: "double (0 + 3304516226583101 / 2 ^ 46) = 3304516226583101 / 2 ^ 46"
    by (rule double_eqI [where e = "5" and n = "6609032453166202"])
       (simp_all add: power_int_minus roundHalfEven_def Let_def)
  have s2: "double (3304516226583101 / 2 ^ 46 + 7059392415903253 / 2 ^ 49) = 8373880557142015 / 2 ^ 47"
    by (rule double_eqI [where e = "5" and n = "8373880557142015"])
       (simp_all add: power_int_minus roundHalfEven_def Let_def)
  show ?thesis
    by (simp only: mult_zero_right double_0 c587 c114 p2 p3 s1 s2)
qed

lemma toGrayscale_example:
  "toGrayscale \<lparr>width = 1, height = 1, data = [0, 80, 110, 255]\<rparr> =
     Inr \<lparr>width = 1, height = 1, data = [59, 59, 59, 255]\<rparr>"
proof -
  let ?img = "\<lparr>width = 1, height = 1, data = [0, 80, 110, 255 :: 8 word]\<rparr>"
  have i: "isImageData ?img" by (simp add: isImageData_def)
  have b: "ToUint8Clamp (8373880557142015 / 2 ^ 47) = 59"
    by (simp add: ToUint8Clamp_def Let_def)
  have "toGrayscaleLoop 0 [0, 80, 110, 255] = [59, 59, 59, 255]"
    by (simp only: toGrayscaleLoop_one_pixel elem_numeral_examples gray_avg b)
  then show ?thesis
    using toGrayscale_Inr [OF i] by simp
qed

section \<open>generateTextures\<close>

lemma generateAO_Inr:
  assumes "0 < w" "0 < h"
  shows "generateAO hm w h s =
     Inr \<lparr>width = w, height = h,
          data = generateAOLoop s 0 (data hm) (replicate (w * h * 4) 0)\<rparr>"
  using assms by (simp add: generateAO_def createBuffer_None bindE_def)

lemma textureBuffers_Inr:
  assumes "0 < w" "0 < h" "length pix = w * h * 4"
  obtains m hm0 dsp0 rgh0 met0 where
    "textureBuffers w h pix params = Inr m"
    "heightData m = applyDataBorder hm0 (top (borders params)) (right (borders params))
        (bottom (borders params)) (left (borders params)) 0 0 0 255"
    "dispData m = applyDataBorder dsp0 (top (borders params)) (right (borders params))
        (bottom (borders params)) (left (borders params)) 0 0 0 255"
    "roughnessData m = applyDataBorder rgh0 (top (borders params)) (right (borders params))
        (bottom (borders params)) (left (borders params)) 255 255 255 255"
    "metallicData m = applyDataBorder met0 (top (borders params)) (right (borders params))
        (bottom (borders params)) (left (borders params)) 0 0 0 255"
    "isImageData hm0" "width hm0 = w" "height hm0 = h" "greyOpaque hm0"
    "isImageData dsp0" "width dsp0 = w" "height dsp0 = h"
    "isImageData rgh0" "width rgh0 = w" "height rgh0 = h"
    "isImageData met0" "width met0 = w" "height met0 = h"
proof -
  let ?t = "top (borders params)" and ?r = "right (borders params)"
  let ?b = "bottom (borders params)" and ?l = "left (borders params)"
  define a where "a = \<lparr>width = w, height = h, data = pix\<rparr>"
  define g0 where "g0 = a\<lparr>data := toGrayscaleLoop 0 (data a)\<rparr>"
  define g where "g = applyDataBorder g0 ?t ?r ?b ?l 0 0 0 255"
  define minV where "minV = double (double (heightMin params / 100) * 255)"
  define maxV where "maxV = double (double (heightMax params / 100) * 255)"
  define hm0 where "hm0 = \<lparr>width = w, height = h,
      data = generateHeightLoop minV maxV (heightRange minV maxV) 0 (data g)
        (replicate (w * h * 4) 0)\<rparr>"
  define hm where "hm = applyDataBorder hm0 ?t ?r ?b ?l 0 0 0 255"
  define nrm where "nrm = \<lparr>width = w, height = h,
      data = generateNormalRows (data hm) w h (normalStrength params) (normalMode params = DX) 0
        (replicate (w * h * 4) 0)\<rparr>"
  define dsp0 where
    "dsp0 = hm\<lparr>data := generateDisplacementLoop (displacementStrength params) 0 (data hm)\<rparr>"
  define rgh0 where "rgh0 = \<lparr>width = w, height = h,
      data = generateRoughnessLoop (double (roughness params * 1.5)) 0 (data hm)
        (replicate (w * h * 4) 0)\<rparr>"
  define met0 where "met0 = \<lparr>width = w, height = h,
      data = generateMetallicLoop (of_int \<lfloor>double (metallic params * 255)\<rfloor>) 0
        (replicate (w * h * 4) 0)\<rparr>"
  define aoi where "aoi = \<lparr>width = w, height = h,
      data = generateAOLoop (aoStrength params) 0 (data hm) (replicate (w * h * 4) 0)\<rparr>"
  define m where "m = \<lparr>albedoData = a, normalData = nrm,
      roughnessData = applyDataBorder rgh0 ?t ?r ?b ?l 255 255 255 255,
      metallicData = applyDataBorder met0 ?t ?r ?b ?l 0 0 0 255,
      heightData = hm,
      dispData = applyDataBorder dsp0 ?t ?r ?b ?l 0 0 0 255,
      aoData = aoi\<rparr>"
  have ia: "isImageData a" using assms by (simp add: a_def isImageData_def)
  have ig0: "isImageData g0" "width g0 = w" "height g0 = h"
    using assms by (simp_all add: g0_def a_def isImageData_def toGrayscaleLoop_length)
  have ig: "isImageData g" "width g = w" "height g = h"
    using ig0 by (simp_all add: g_def applyDataBorder_isImageData)
  have ih0: "isImageData hm0" "width hm0 = w" "height hm0 = h"
    using assms by (simp_all add: hm0_def isImageData_def generateHeightLoop_length)
  have ih: "isImageData hm" "width hm = w" "height hm = h"
    using ih0 by (simp_all add: hm_def applyDataBorder_isImageData)
  have id0: "isImageData dsp0" "width dsp0 = w" "height dsp0 = h"
    using ih by (simp_all add: dsp0_def isImageData_def generateDisplacementLoop_length)
  have ir0: "isImageData rgh0" "width rgh0 = w" "height rgh0 = h"
    using assms by (simp_all add: rgh0_def isImageData_def generateRoughnessLoop_length)
  have im0: "isImageData met0" "width met0 = w" "height met0 = h"
    using assms by (simp_all add: met0_def isImageData_def generateMetallicLoop_length)
  have s1: "toGrayscale a = Inr g0"
    using toGrayscale_Inr [OF ia] by (simp add: g0_def)
  have s2: "generateHeight g (heightMin params) (heightMax params) = Inr hm0"
    using generateHeight_Inr [OF ig(1)] ig(2,3) by (simp add: hm0_def minV_def maxV_def)
  have s3: "generateNormal hm w h (normalStrength params) (normalMode params = DX) = Inr nrm"
    using generateNormal_Inr [OF assms(1,2)] by (simp add: nrm_def)
  have s4: "generateDisplacement hm (displacementStrength params) = Inr dsp0"
    using generateDisplacement_Inr [OF ih(1)] by (simp add: dsp0_def)
  have s5: "generateRoughness hm (roughness params) = Inr rgh0"
    using generateRoughness_Inr [OF ih(1)] ih(2,3) by (simp add: rgh0_def)
  have s6: "generateMetallic w h (metallic params) = Inr met0"
    using generateMetallic_Inr [OF assms(1,2)] by (simp add: met0_def)
  have s7: "generateAO hm w h (aoStrength params) = Inr aoi"
    using generateAO_Inr [OF assms(1,2)] by (simp add: aoi_def)
  have "textureBuffers w h pix params = Inr m"
    unfolding textureBuffers_def Let_def a_def [symmetric]
    by (simp add: bindE_def s1 g_def [symmetric] s2 hm_def [symmetric] s3 s4 s5 s6 s7 m_def)
  moreover have "heightData m = applyDataBorder hm0 ?t ?r ?b ?l 0 0 0 255"
    "dispData m = applyDataBorder dsp0 ?t ?r ?b ?l 0 0 0 255"
    "roughnessData m = applyDataBorder rgh0 ?t ?r ?b ?l 255 255 255 255"
    "metallicData m = applyDataBorder met0 ?t ?r ?b ?l 0 0 0 255"
    by (simp_all add: m_def hm_def)
  ultimately show ?thesis
    using ih0 generateHeight_greyOpaque [OF ig(1) s2] id0 ir0 im0 by (rule that)
qed

text \<open>The height buffer that the pipeline hands to the synthesizers is grey and opaque.\<close>

lemma textureBuffers_height_greyOpaque:
  assumes "0 < w" "0 < h" "length pix = w * h * 4" "textureBuffers w h pix params = Inr m"
  shows "isImageData (heightData m) \<and> greyOpaque (heightData m)"
proof -
  from textureBuffers_Inr [OF assms(1-3), of params]
  obtain m' hm0 where m': "textureBuffers w h pix params = Inr m'"
    and hm: "heightData m' = applyDataBorder hm0 (top (borders params)) (right (borders params))
        (bottom (borders params)) (left (borders params)) 0 0 0 255"
    and i: "isImageData hm0" "greyOpaque hm0"
    by blast
  from m' assms(4) have "m' = m" by simp
  with hm i show ?thesis
    by (simp add: applyDataBorder_isImageData applyDataBorder_greyOpaque)
qed

lemma targetSize_cases:
  "targetSize params = (2048, 2048) \<or> targetSize params = (2048, 1080)"
  by (simp add: targetSize_def)

lemma generateTextures_no_context:
  "\<not> getContext br 0 \<Longrightarrow>
   generateTextures br canvas params = Inl (Error ''Failed to create canvas context'')"
  by (simp add: generateTextures_def split: prod.splits)

lemma generateTextures_canvas_error:
  "getContext br 0 \<Longrightarrow> generateTextures br (Inl e) params = Inl e"
  by (simp add: generateTextures_def bindE_def split: prod.splits)

lemma generateTextures_Inr:
  assumes "getContext br 0" "targetSize params = (w, h)"
    "textureBuffers w h pix params = Inr m"
  shows "generateTextures br (Inr pix) params =
     Inr \<lparr>albedo = imageDataToDataURL br 1 (albedoData m),
          normal = imageDataToDataURL br 2 (normalData m),
          TextureSet.roughness = imageDataToDataURL br 3 (roughnessData m),
          TextureSet.metallic = imageDataToDataURL br 4 (metallicData m),
          TextureSet.height = imageDataToDataURL br 5 (heightData m),
          displacement = imageDataToDataURL br 6 (dispData m),
          ao = imageDataToDataURL br 7 (aoData m)\<rparr>"
  using assms by (simp add: generateTextures_def bindE_def)

lemma textureBuffers_total:
  assumes "targetSize params = (w, h)" "length pix = w * h * 4"
  shows "\<exists>m. textureBuffers w h pix params = Inr m"
proof -
  have "0 < w" "0 < h" using targetSize_cases [of params] assms(1) by auto
  from textureBuffers_Inr [OF this assms(2)] show ?thesis by metis
qed

lemma blackCanvas_length: "length blackCanvas = 2048 * 2048 * 4"
  by (simp add: blackCanvas_def length_concat sum_list_replicate)

lemma targetSize_examples:
  "targetSize DEFAULT_PARAMS = (2048, 2048)" "targetSize invalidParams = (2048, 2048)"
  "targetSize borderParams = (2048, 2048)"
  by (simp_all add: targetSize_def DEFAULT_PARAMS_def invalidParams_def borderParams_def)

text \<open>
  Claim C3, as stated: \<^verbatim>\<open>generateTextures\<close> rejects invalid parameters with an
  \<open>InvalidParameters\<close> error before any pixel work. The code has no such check: with
  \<open>heightMin = 80 > heightMax = 20\<close>, \<open>metallic = 7\<close> and a top border of 5000 pixels on a
  canvas of 2048 rows, on a page where every canvas gets its context and the canvas is
  read back, the call does not fail.
\<close>

theorem generateTextures_no_validation_counterexample:
  "heightMax invalidParams \<le> heightMin invalidParams
   \<and> 1 < metallic invalidParams
   \<and> 2048 / 2 \<le> top (borders invalidParams)
   \<and> getContext workingBrowser 0
   \<and> \<not> isl (generateTextures workingBrowser (Inr blackCanvas) invalidParams)"
proof -
  have c: "getContext workingBrowser 0" by (simp add: workingBrowser_def everyCanvas_def)
  obtain m where m: "textureBuffers 2048 2048 blackCanvas invalidParams = Inr m"
    using textureBuffers_total [OF targetSize_examples(2) blackCanvas_length] by blast
  have "\<not> isl (generateTextures workingBrowser (Inr blackCanvas) invalidParams)"
    by (simp add: generateTextures_Inr [OF c targetSize_examples(2) m])
  with c show ?thesis
    by (simp add: invalidParams_def DEFAULT_PARAMS_def)
qed

text \<open>
  Claim C3, amended. \<^verbatim>\<open>generateTextures\<close> does not validate its parameters. Once its
  canvas has a 2D context and the canvas statements have read back the \<open>w * h\<close> pixels,
  the call returns a texture set for every parameter record whose border thicknesses are
  at most \<open>2 ^ 53\<close>: also when \<open>heightMin \<ge> heightMax\<close>, when a value lies outside its
  documented range, and when a border is half the image and more. (With these thicknesses
  the four border loops, run with the code's counter, end with the result of the loops of
  \<open>applyDataBorder\<close>, on every array and for every colour.)
\<close>

theorem generateTextures_accepts_every_parameter:
  assumes "getContext br 0" "targetSize params = (w, h)" "length pix = w * h * 4"
    and "top (borders params) \<le> 2 ^ 53" "right (borders params) \<le> 2 ^ 53"
    and "bottom (borders params) \<le> 2 ^ 53" "left (borders params) \<le> 2 ^ 53"
  shows "(\<exists>ts. generateTextures br (Inr pix) params = Inr ts)
     \<and> (\<forall>c d. forLoop (top (borders params)) (\<lambda>y. borderRow w h c \<lfloor>y\<rfloor> 0) 0 d
                = Some (borderTop w h c (top (borders params)) 0 d))
     \<and> (\<forall>c d. forLoop (bottom (borders params)) (\<lambda>y. borderRow w h c (int h - 1 - \<lfloor>y\<rfloor>) 0) 0 d
                = Some (borderBottom w h c (bottom (borders params)) 0 d))
     \<and> (\<forall>c d. forLoop (left (borders params)) (\<lambda>x. borderCol w h c \<lfloor>x\<rfloor> 0) 0 d
                = Some (borderLeft w h c (left (borders params)) 0 d))
     \<and> (\<forall>c d. forLoop (right (borders params)) (\<lambda>x. borderCol w h c (int w - 1 - \<lfloor>x\<rfloor>) 0) 0 d
                = Some (borderRight w h c (right (borders params)) 0 d))"
proof -
  obtain m where m: "textureBuffers w h pix params = Inr m"
    using textureBuffers_total [OF assms(2,3)] by blast
  have "\<exists>ts. generateTextures br (Inr pix) params = Inr ts"
    using generateTextures_Inr [OF assms(1,2) m] by blast
  moreover have "forLoop (top (borders params)) (\<lambda>y. borderRow w h c \<lfloor>y\<rfloor> 0) 0 d
      = Some (borderTop w h c (top (borders params)) 0 d)" for c d
    using forLoop_borderTop [OF assms(4), of w h c 0 d] by simp
  moreover have "forLoop (bottom (borders params)) (\<lambda>y. borderRow w h c (int h - 1 - \<lfloor>y\<rfloor>) 0) 0 d
      = Some (borderBottom w h c (bottom (borders params)) 0 d)" for c d
    using forLoop_borderBottom [OF assms(6), of w h c 0 d] by simp
  moreover have "forLoop (left (borders params)) (\<lambda>x. borderCol w h c \<lfloor>x\<rfloor> 0) 0 d
      = Some (borderLeft w h c (left (borders params)) 0 d)" for c d
    using forLoop_borderLeft [OF assms(7), of w h c 0 d] by simp
  moreover have "forLoop (right (borders params)) (\<lambda>x. borderCol w h c (int w - 1 - \<lfloor>x\<rfloor>) 0) 0 d
      = Some (borderRight w h c (right (borders params)) 0 d)" for c d
    using forLoop_borderRight [OF assms(5), of w h c 0 d] by simp
  ultimately show ?thesis by blast
qed

theorem generateTextures_accepts_every_parameter_witness:
  "getContext workingBrowser 0 \<and> targetSize invalidParams = (2048, 2048)
   \<and> length blackCanvas = 2048 * 2048 * 4
   \<and> top (borders invalidParams) \<le> 2 ^ 53 \<and> right (borders invalidParams) \<le> 2 ^ 53
   \<and> bottom (borders invalidParams) \<le> 2 ^ 53 \<and> left (borders invalidParams) \<le> 2 ^ 53
   \<and> heightMax invalidParams \<le> heightMin invalidParams
   \<and> (\<exists>ts. generateTextures workingBrowser (Inr blackCanvas) invalidParams = Inr ts)"
proof -
  have c: "getContext workingBrowser 0" by (simp add: workingBrowser_def everyCanvas_def)
  have b: "top (borders invalidParams) \<le> 2 ^ 53" "right (borders invalidParams) \<le> 2 ^ 53"
    "bottom (borders invalidParams) \<le> 2 ^ 53" "left (borders invalidParams) \<le> 2 ^ 53"
    by (simp_all add: invalidParams_def DEFAULT_PARAMS_def)
  have h: "heightMax invalidParams \<le> heightMin invalidParams"
    by (simp add: invalidParams_def DEFAULT_PARAMS_def)
  from generateTextures_accepts_every_parameter
    [OF c targetSize_examples(2) blackCanvas_length b]
  have "\<exists>ts. generateTextures workingBrowser (Inr blackCanvas) invalidParams = Inr ts"
    by blast
  then show ?thesis
    using c targetSize_examples(2) blackCanvas_length b h by blast
qed

text \<open>
  Claim C4: every error is reported as a failure, none is downgraded to a default value,
  and a raster that cannot be serialised makes the whole call fail. The code does not do
  that. On a page where the third canvas of the encoder gets no 2D context, the roughness
  raster cannot be serialised, and the call with the default parameters does not fail:
  \<^verbatim>\<open>imageDataToDataURL\<close> returns the empty string, and the texture set comes back with
  an empty roughness entry next to an albedo entry that was encoded. For its own canvas
  \<^verbatim>\<open>generateTextures\<close> treats the same condition as the claim says: on a page that
  gives no context at all the call fails with \<open>Failed to create canvas context\<close>.
\<close>

theorem generateTextures_empty_entry:
  "getContext flakyBrowser 0 \<and> \<not> getContext flakyBrowser 3
   \<and> \<not> isl (generateTextures flakyBrowser (Inr blackCanvas) DEFAULT_PARAMS)
   \<and> TextureSet.roughness (projr (generateTextures flakyBrowser (Inr blackCanvas) DEFAULT_PARAMS))
       = ''''
   \<and> albedo (projr (generateTextures flakyBrowser (Inr blackCanvas) DEFAULT_PARAMS))
       = ''data:image/jpeg''
   \<and> generateTextures headlessBrowser (Inr blackCanvas) DEFAULT_PARAMS
       = Inl (Error ''Failed to create canvas context'')"
proof -
  have c: "getContext flakyBrowser 0" by (simp add: flakyBrowser_def allButThird_def)
  obtain m where m: "textureBuffers 2048 2048 blackCanvas DEFAULT_PARAMS = Inr m"
    using textureBuffers_total [OF targetSize_examples(1) blackCanvas_length] by blast
  note g = generateTextures_Inr [OF c targetSize_examples(1) m]
  have n: "\<not> getContext flakyBrowser 3" by (simp add: flakyBrowser_def allButThird_def)
  have e3: "imageDataToDataURL flakyBrowser 3 img = ''''" for img
    using n by (simp add: imageDataToDataURL_def)
  have e1: "imageDataToDataURL flakyBrowser (Suc 0) img = ''data:image/jpeg''" for img
    by (simp add: imageDataToDataURL_def flakyBrowser_def allButThird_def typeOnlyURL_def)
  have "\<not> getContext headlessBrowser 0" by (simp add: headlessBrowser_def noCanvas_def)
  then have h: "generateTextures headlessBrowser (Inr blackCanvas) DEFAULT_PARAMS
      = Inl (Error ''Failed to create canvas context'')"
    by (rule generateTextures_no_context)
  show ?thesis
    unfolding g h using c n by (simp add: e1 e3)
qed

text \<open>
  Claim C9. One and the same serialisation, \<^verbatim>\<open>canvas.toDataURL('image/jpeg', 0.95)\<close>,
  produces every entry of the returned texture set (albedo, normal, roughness, metallic,
  height, displacement, ao), each from its own raster: the data-bearing maps are encoded
  as the albedo is, with the lossy JPEG type, and none with a lossless type. (Stated for a
  page where the eight canvases of the call get their 2D contexts and the canvas is read
  back.)
\<close>

theorem generateTextures_jpeg_everywhere:
  assumes "\<forall>n\<le>7. getContext br n" "targetSize params = (w, h)" "length pix = w * h * 4"
  shows "\<exists>m. textureBuffers w h pix params = Inr m
      \<and> generateTextures br (Inr pix) params =
          Inr \<lparr>albedo = toDataURL br (albedoData m) ''image/jpeg'' 0.95,
               normal = toDataURL br (normalData m) ''image/jpeg'' 0.95,
               TextureSet.roughness = toDataURL br (roughnessData m) ''image/jpeg'' 0.95,
               TextureSet.metallic = toDataURL br (metallicData m) ''image/jpeg'' 0.95,
               TextureSet.height = toDataURL br (heightData m) ''image/jpeg'' 0.95,
               displacement = toDataURL br (dispData m) ''image/jpeg'' 0.95,
               ao = toDataURL br (aoData m) ''image/jpeg'' 0.95\<rparr>"
proof -
  obtain m where m: "textureBuffers w h pix params = Inr m"
    using textureBuffers_total [OF assms(2,3)] by blast
  have c: "getContext br 0" "getContext br 1" "getContext br 2" "getContext br 3"
    "getContext br 4" "getContext br 5" "getContext br 6" "getContext br 7"
    using assms(1) by simp_all
  show ?thesis
    using generateTextures_Inr [OF c(1) assms(2) m] m c
    by (simp add: imageDataToDataURL_def)
qed

theorem generateTextures_jpeg_everywhere_witness:
  "targetSize DEFAULT_PARAMS = (2048, 2048) \<and> length blackCanvas = 2048 * 2048 * 4
   \<and> generateTextures workingBrowser (Inr blackCanvas) DEFAULT_PARAMS =
       Inr \<lparr>albedo = ''data:image/jpeg'', normal = ''data:image/jpeg'',
            TextureSet.roughness = ''data:image/jpeg'', TextureSet.metallic = ''data:image/jpeg'',
            TextureSet.height = ''data:image/jpeg'', displacement = ''data:image/jpeg'',
            ao = ''data:image/jpeg''\<rparr>"
proof -
  have c: "\<forall>n\<le>7. getContext workingBrowser n"
    by (simp add: workingBrowser_def everyCanvas_def)
  show ?thesis
    using generateTextures_jpeg_everywhere [OF c targetSize_examples(1) blackCanvas_length]
      targetSize_examples(1) blackCanvas_length
    by (auto simp add: workingBrowser_def typeOnlyURL_def)
qed

lemma stored_black: "stored (0, 0, 0, 255) = (0, 0, 0, 255)"
  by (simp add: stored_def ToUint8Clamp_0 ToUint8Clamp_255)

lemma stored_white: "stored (255, 255, 255, 255) = (255, 255, 255, 255)"
  by (simp add: stored_def ToUint8Clamp_255)

lemma applyDataBorder_band:
  assumes "isImageData img" "width img = w" "height img = h" "x < w" "y < h"
    "inBorder w h t r b l x y"
  shows "pixelAt w (data (applyDataBorder img t r b l red green blue alpha)) x y =
     stored (red, green, blue, alpha)"
proof -
  have "length (data img) = width img * height img * 4"
    using assms(1) by (simp add: isImageData_def)
  from applyDataBorder_pixel [OF _ _ this, of x y t r b l red green blue alpha]
  show ?thesis using assms(2-6) by simp
qed

text \<open>
  Claim C2. After one call of \<^verbatim>\<open>generateTextures\<close> (on a page that gives its canvas a
  2D context and reads it back), for every border thicknesses \<open>(t, r, b, l)\<close> and every value of the other
  parameters, the rasters that are encoded as the roughness, metallic, height and
  displacement entries hold, at every pixel of the border band, 255 in the roughness map
  and 0 in the metallic, height and displacement maps (in the three colour channels; alpha
  is 255). The theorem has no bound on the thicknesses: the documented range
  \<open>[0, min (width, height) / 2]\<close>, in which the border loops are the code's, is a special
  case.
\<close>

theorem generateTextures_border_invariant:
  assumes "getContext br 0" "targetSize params = (w, h)" "length pix = w * h * 4"
  shows "\<exists>m ts. textureBuffers w h pix params = Inr m
      \<and> generateTextures br (Inr pix) params = Inr ts
      \<and> TextureSet.roughness ts = imageDataToDataURL br 3 (roughnessData m)
      \<and> TextureSet.metallic ts = imageDataToDataURL br 4 (metallicData m)
      \<and> TextureSet.height ts = imageDataToDataURL br 5 (heightData m)
      \<and> displacement ts = imageDataToDataURL br 6 (dispData m)
      \<and> (\<forall>x<w. \<forall>y<h.
            inBorder w h (top (borders params)) (right (borders params))
              (bottom (borders params)) (left (borders params)) x y \<longrightarrow>
            pixelAt w (data (roughnessData m)) x y = (255, 255, 255, 255)
            \<and> pixelAt w (data (metallicData m)) x y = (0, 0, 0, 255)
            \<and> pixelAt w (data (heightData m)) x y = (0, 0, 0, 255)
            \<and> pixelAt w (data (dispData m)) x y = (0, 0, 0, 255))"
proof -
  let ?t = "top (borders params)" and ?r = "right (borders params)"
  let ?b = "bottom (borders params)" and ?l = "left (borders params)"
  have pos: "0 < w" "0 < h" using targetSize_cases [of params] assms(2) by auto
  from textureBuffers_Inr [OF pos assms(3), of params]
  obtain m hm0 dsp0 rgh0 met0 where
    m: "textureBuffers w h pix params = Inr m" and
    hm: "heightData m = applyDataBorder hm0 ?t ?r ?b ?l 0 0 0 255" and
    dsp: "dispData m = applyDataBorder dsp0 ?t ?r ?b ?l 0 0 0 255" and
    rgh: "roughnessData m = applyDataBorder rgh0 ?t ?r ?b ?l 255 255 255 255" and
    met: "metallicData m = applyDataBorder met0 ?t ?r ?b ?l 0 0 0 255" and
    ih: "isImageData hm0" "width hm0 = w" "height hm0 = h" "greyOpaque hm0" and
    id: "isImageData dsp0" "width dsp0 = w" "height dsp0 = h" and
    ir: "isImageData rgh0" "width rgh0 = w" "height rgh0 = h" and
    im: "isImageData met0" "width met0 = w" "height met0 = h"
    by blast
  have band: "pixelAt w (data (roughnessData m)) x y = (255, 255, 255, 255)
      \<and> pixelAt w (data (metallicData m)) x y = (0, 0, 0, 255)
      \<and> pixelAt w (data (heightData m)) x y = (0, 0, 0, 255)
      \<and> pixelAt w (data (dispData m)) x y = (0, 0, 0, 255)"
    if "x < w" "y < h" "inBorder w h ?t ?r ?b ?l x y" for x y
    unfolding hm dsp rgh met
    by (simp only: applyDataBorder_band [OF ih(1-3) that] applyDataBorder_band [OF id that]
        applyDataBorder_band [OF ir that] applyDataBorder_band [OF im that]
        stored_black stored_white simp_thms)
  show ?thesis
    using generateTextures_Inr [OF assms(1,2) m] m band by simp
qed

theorem generateTextures_border_invariant_witness:
  "getContext workingBrowser 0 \<and> targetSize borderParams = (2048, 2048)
   \<and> length blackCanvas = 2048 * 2048 * 4
   \<and> inBorder 2048 2048 (top (borders borderParams)) (right (borders borderParams))
        (bottom (borders borderParams)) (left (borders borderParams)) 700 15
   \<and> (\<exists>m. textureBuffers 2048 2048 blackCanvas borderParams = Inr m
         \<and> pixelAt 2048 (data (roughnessData m)) 700 15 = (255, 255, 255, 255)
         \<and> pixelAt 2048 (data (metallicData m)) 700 15 = (0, 0, 0, 255)
         \<and> pixelAt 2048 (data (heightData m)) 700 15 = (0, 0, 0, 255)
         \<and> pixelAt 2048 (data (dispData m)) 700 15 = (0, 0, 0, 255))"
proof -
  have c: "getContext workingBrowser 0" by (simp add: workingBrowser_def everyCanvas_def)
  have b: "inBorder 2048 2048 (top (borders borderParams)) (right (borders borderParams))
      (bottom (borders borderParams)) (left (borders borderParams)) 700 15"
    by (simp add: inBorder_def borderParams_def DEFAULT_PARAMS_def)
  show ?thesis
    using generateTextures_border_invariant [OF c targetSize_examples(3) blackCanvas_length]
      c b targetSize_examples(3) blackCanvas_length
    by auto
qed

end
